theory Spec2Isabelle
  imports Main "HOL-Library.Word" "HOL-Library.Char_ord" "HOL-Library.List_Lexorder"
    "HOL-Library.Log_Nat"
begin

section \<open>Go values and the library functions the programs call\<close>

text \<open>
  The three Go programs compute with \<^verbatim>\<open>int\<close>, which is a 64-bit two's complement
  integer on the platforms Go is commonly built for: \<open>+\<close>, \<open>-\<close> and \<open>*\<close> wrap around
  silently, and comparisons are signed (\<open>sint\<close>). A Go string is a sequence of bytes,
  modelled as \<open>string\<close>.
\<close>

type_synonym go_int = "64 word"

text \<open>What stops a program: \<^verbatim>\<open>panic(err)\<close> in the source, and the run-time panic of an
  index out of range.\<close>

datatype panic = PanicOpen | PanicAtoi string | PanicScan | PanicIndex

text \<open>
  The input file as the programs see it through \<^verbatim>\<open>os.Open\<close> and \<^verbatim>\<open>bufio.Scanner\<close>:
  either it cannot be opened, or the scanner delivers a sequence of lines
  (\<^verbatim>\<open>scanner.Text()\<close> for each successful \<^verbatim>\<open>scanner.Scan()\<close>) and finally reports whether
  it stopped on an error (\<^verbatim>\<open>scanner.Err() != nil\<close>).
\<close>

datatype input_file = Missing | File "string list" bool

definition dropCR :: "string \<Rightarrow> string" where
  "dropCR s = (if s \<noteq> [] \<and> last s = CHR 0x0D then butlast s else s)"

text \<open>\<^verbatim>\<open>bufio.ScanLines\<close>, the scanner's split function: a line ends at a newline, one
  carriage return before it is dropped, an empty line is delivered as the empty string,
  and a last line without a newline is delivered when it is not empty.\<close>

fun ScanLines_from :: "string \<Rightarrow> string \<Rightarrow> string list" where
  "ScanLines_from cur [] = (if cur = [] then [] else [dropCR cur])"
| "ScanLines_from cur (c # cs) =
     (if c = CHR 0x0A then dropCR cur # ScanLines_from [] cs
      else ScanLines_from (cur @ [c]) cs)"

definition ScanLines :: "string \<Rightarrow> string list" where
  "ScanLines data = ScanLines_from [] data"

text \<open>
  \<^verbatim>\<open>strings.Fields\<close> splits around runs of white space as \<^verbatim>\<open>unicode.IsSpace\<close> defines
  it. On the bytes of a string these are the six ASCII characters and the UTF-8 encodings
  of U+0085, U+00A0, U+1680, U+2000 to U+200A, U+2028, U+2029, U+202F, U+205F and U+3000.
  Each encoding starts with a lead byte, so the decoder always reads it from its start.
\<close>

definition white_space :: "nat list list" where
  "white_space =
     [[0x09], [0x0A], [0x0B], [0x0C], [0x0D], [0x20],
      [0xC2, 0x85], [0xC2, 0xA0], [0xE1, 0x9A, 0x80],
      [0xE2, 0x80, 0x80], [0xE2, 0x80, 0x81], [0xE2, 0x80, 0x82], [0xE2, 0x80, 0x83],
      [0xE2, 0x80, 0x84], [0xE2, 0x80, 0x85], [0xE2, 0x80, 0x86], [0xE2, 0x80, 0x87],
      [0xE2, 0x80, 0x88], [0xE2, 0x80, 0x89], [0xE2, 0x80, 0x8A],
      [0xE2, 0x80, 0xA8], [0xE2, 0x80, 0xA9], [0xE2, 0x80, 0xAF],
      [0xE2, 0x81, 0x9F], [0xE3, 0x80, 0x80]]"

definition space_width :: "string \<Rightarrow> nat" where
  "space_width s =
     (case filter (\<lambda>w. take (length w) (map of_char s) = w) white_space of
        [] \<Rightarrow> 0
      | w # _ \<Rightarrow> length w)"

function Fields_from :: "string \<Rightarrow> string \<Rightarrow> string list" where
  "Fields_from cur s =
     (if s = [] then (if cur = [] then [] else [cur])
      else if 0 < space_width s
        then (if cur = [] then [] else [cur]) @ Fields_from [] (drop (space_width s) s)
        else Fields_from (cur @ [hd s]) (tl s))"
  by pat_completeness auto
termination
  by (relation "measure (\<lambda>(cur, s). length s)") auto

definition Fields :: "string \<Rightarrow> string list" where
  "Fields s = Fields_from [] s"

text \<open>
  \<^verbatim>\<open>strconv.Atoi\<close>: an optional sign, then one or more decimal digits, and the value
  must fit the 64-bit \<^verbatim>\<open>int\<close>; everything else is an error (\<open>None\<close>).
\<close>

definition isDigit :: "char \<Rightarrow> bool" where
  "isDigit c = (48 \<le> (of_char c :: int) \<and> (of_char c :: int) \<le> 57)"

definition digit_value :: "char \<Rightarrow> int" where
  "digit_value c = of_char c - 48"

definition decimal :: "string \<Rightarrow> int" where
  "decimal ds = foldl (\<lambda>n c. 10 * n + digit_value c) 0 ds"

definition Atoi :: "string \<Rightarrow> go_int option" where
  "Atoi s =
     (let neg = (s \<noteq> [] \<and> hd s = CHR ''-'');
          ds = (if s \<noteq> [] \<and> (hd s = CHR ''-'' \<or> hd s = CHR ''+'') then tl s else s)
      in if ds = [] \<or> \<not> list_all isDigit ds then None
         else if neg then (if decimal ds \<le> 2 ^ 63 then Some (- word_of_int (decimal ds)) else None)
         else (if decimal ds < 2 ^ 63 then Some (word_of_int (decimal ds)) else None))"

text \<open>\<^verbatim>\<open>strings.HasPrefix\<close>, \<^verbatim>\<open>strings.Index\<close> (the first position of the substring,
  \<open>-1\<close> when there is none) and \<^verbatim>\<open>strings.Contains\<close>.\<close>

definition HasPrefix :: "string \<Rightarrow> string \<Rightarrow> bool" where
  "HasPrefix s p = (take (length p) s = p)"

fun Index :: "string \<Rightarrow> string \<Rightarrow> int" where
  "Index [] substr = (if substr = [] then 0 else - 1)"
| "Index (c # cs) substr =
     (if HasPrefix (c # cs) substr then 0
      else (let r = Index cs substr in if r < 0 then - 1 else r + 1))"

definition Contains :: "string \<Rightarrow> string \<Rightarrow> bool" where
  "Contains s substr = (0 \<le> Index s substr)"

text \<open>\<^verbatim>\<open>sort.Ints\<close>: ascending in the signed order of \<^verbatim>\<open>int\<close>.\<close>

definition sort_Ints :: "go_int list \<Rightarrow> go_int list" where
  "sort_Ints xs = sort_key sint xs"

section \<open>Report Safety Checker\<close>

fun parse_fields :: "string list \<Rightarrow> go_int list \<Rightarrow> panic + go_int list" where
  "parse_fields [] report = Inr report"
| "parse_fields (field # fields) report =
     (case Atoi field of
        None \<Rightarrow> Inl (PanicAtoi field)
      | Some v \<Rightarrow> parse_fields fields (report @ [v]))"

fun parse_lines :: "string list \<Rightarrow> go_int list list \<Rightarrow> panic + go_int list list" where
  "parse_lines [] reports = Inr reports"
| "parse_lines (line # rest) reports =
     (case parse_fields (Fields line) [] of
        Inl e \<Rightarrow> Inl e
      | Inr report \<Rightarrow> parse_lines rest (reports @ [report]))"

definition readPuzzleInput_reports :: "input_file \<Rightarrow> panic + go_int list list" where
  "readPuzzleInput_reports f =
     (case f of
        Missing \<Rightarrow> Inl PanicOpen
      | File lines scan_err \<Rightarrow>
          (case parse_lines lines [] of
             Inl e \<Rightarrow> Inl e
           | Inr reports \<Rightarrow> if scan_err then Inl PanicScan else Inr reports))"

function isSafe_loop :: "go_int list \<Rightarrow> nat \<Rightarrow> bool \<Rightarrow> bool \<Rightarrow> bool" where
  "isSafe_loop report i increasing decreasing =
     (if i < length report then
        (let diff = report ! i - report ! (i - 1)
         in isSafe_loop report (i + 1)
              (if sint diff < 1 \<or> sint diff > 3 then False else increasing)
              (if sint diff < - 3 \<or> sint diff > - 1 then False else decreasing))
      else increasing \<or> decreasing)"
  by pat_completeness auto
termination
  by (relation "measure (\<lambda>(report, i, increasing, decreasing). length report - i)") auto

definition isSafe :: "go_int list \<Rightarrow> bool" where
  "isSafe report = isSafe_loop report 1 True True"

function canBeSafe_loop :: "go_int list \<Rightarrow> nat \<Rightarrow> bool" where
  "canBeSafe_loop report i =
     (if i < length report then
        (let newReport = take i report @ drop (i + 1) report
         in if isSafe newReport then True else canBeSafe_loop report (i + 1))
      else False)"
  by pat_completeness auto
termination
  by (relation "measure (\<lambda>(report, i). length report - i)") auto

definition canBeSafe :: "go_int list \<Rightarrow> bool" where
  "canBeSafe report = canBeSafe_loop report 0"

definition partOne_reports :: "go_int list list \<Rightarrow> go_int" where
  "partOne_reports reports =
     foldl (\<lambda>num_safe report. if isSafe report then num_safe + 1 else num_safe) 0 reports"

definition partTwo_reports :: "go_int list list \<Rightarrow> go_int" where
  "partTwo_reports reports =
     foldl (\<lambda>num_safe report. if canBeSafe report then num_safe + 1 else num_safe) 0 reports"

section \<open>Distance/Similarity Calculator, the Go program\<close>

text \<open>What the program prints while it reads its input.\<close>

datatype message = InvalidInput string | MismatchedLengths

fun read_pairs ::
  "string list \<Rightarrow> go_int list \<Rightarrow> go_int list \<Rightarrow> message list
     \<Rightarrow> go_int list \<times> go_int list \<times> message list" where
  "read_pairs [] left right out = (left, right, out)"
| "read_pairs (line # rest) left right out =
     (let parts = Fields line
      in if 2 \<le> length parts then
           (case Atoi (parts ! 0) of
              None \<Rightarrow> read_pairs rest left right (out @ [InvalidInput (parts ! 0)])
            | Some l \<Rightarrow>
                (case Atoi (parts ! 1) of
                   None \<Rightarrow> read_pairs rest left right (out @ [InvalidInput (parts ! 1)])
                 | Some r \<Rightarrow> read_pairs rest (left @ [l]) (right @ [r]) out))
         else read_pairs rest left right out)"

definition readPuzzleInput_lists ::
  "input_file \<Rightarrow> panic + go_int list \<times> go_int list \<times> message list" where
  "readPuzzleInput_lists f =
     (case f of
        Missing \<Rightarrow> Inl PanicOpen
      | File lines scan_err \<Rightarrow>
          (case read_pairs lines [] [] [] of
             (left, right, out) \<Rightarrow>
               if scan_err then Inl PanicScan
               else if length (sort_Ints left) \<noteq> length (sort_Ints right)
                 then Inr (sort_Ints left, sort_Ints right, out @ [MismatchedLengths])
                 else Inr (sort_Ints left, sort_Ints right, out)))"

text \<open>
  \<^verbatim>\<open>int(math.Abs(float64(d)))\<close>: the conversion to \<^verbatim>\<open>float64\<close> rounds to the nearest
  value with a 53-bit significand, ties to even; it is exact below \<open>2 ^ 53\<close>. The values
  are integers, so they are kept as \<open>int\<close>. Converting \<open>2 ^ 63\<close> back to \<^verbatim>\<open>int\<close> is left
  to the implementation by the language; \<open>word_of_int\<close> gives what amd64 does.
\<close>

definition float64_of_int :: "int \<Rightarrow> int" where
  "float64_of_int x =
     (if \<bar>x\<bar> < 2 ^ 53 then x
      else (let e = nat (bitlen \<bar>x\<bar> - 53);
                q = \<bar>x\<bar> div 2 ^ e;
                r = \<bar>x\<bar> mod 2 ^ e;
                h = 2 ^ (e - 1);
                q' = (if h < r \<or> (r = h \<and> odd q) then q + 1 else q)
            in sgn x * (q' * 2 ^ e)))"

definition abs_float64 :: "go_int \<Rightarrow> go_int" where
  "abs_float64 d = word_of_int \<bar>float64_of_int (sint d)\<bar>"

function partOne_lists_loop ::
  "go_int list \<Rightarrow> go_int list \<Rightarrow> nat \<Rightarrow> go_int \<Rightarrow> panic + go_int" where
  "partOne_lists_loop left right i summ =
     (if i < length left then
        (if i < length right
         then partOne_lists_loop left right (i + 1) (summ + abs_float64 (left ! i - right ! i))
         else Inl PanicIndex)
      else Inr summ)"
  by pat_completeness auto
termination
  by (relation "measure (\<lambda>(left, right, i, summ). length left - i)") auto

definition partOne_lists :: "go_int list \<Rightarrow> go_int list \<Rightarrow> panic + go_int" where
  "partOne_lists left right = partOne_lists_loop left right 0 0"

text \<open>The frequency map: reading a key that was never written gives 0.\<close>

definition frequencies :: "go_int list \<Rightarrow> go_int \<Rightarrow> go_int" where
  "frequencies right = foldl (\<lambda>freq val. freq(val := freq val + 1)) (\<lambda>val. 0) right"

definition partTwo_lists :: "go_int list \<Rightarrow> go_int list \<Rightarrow> go_int" where
  "partTwo_lists left right =
     foldl (\<lambda>summ l. summ + l * frequencies right l) 0 left"

section \<open>Distance/Similarity Calculator, the JavaScript program\<close>

text \<open>
  The columns are arrays of strings. \<^verbatim>\<open>Array.prototype.sort\<close> without a comparison
  function orders strings by their code units, which is the lexicographic order of
  \<open>string\<close>. Numbers are doubles: the model covers the fields that are non-empty
  sequences of decimal digits and the integers of magnitude at most \<open>2 ^ 53\<close>, where
  \<^verbatim>\<open>Number\<close>, \<open>-\<close>, \<open>+\<close>, \<open>*\<close> and \<^verbatim>\<open>Math.abs\<close> are exact; \<open>None\<close> stands for every
  other value (a rounded result, \<^verbatim>\<open>NaN\<close>, a fraction).
\<close>

definition js_exact :: "int \<Rightarrow> int option" where
  "js_exact n = (if \<bar>n\<bar> \<le> 2 ^ 53 then Some n else None)"

definition js_Number :: "string \<Rightarrow> int option" where
  "js_Number s =
     (if s \<noteq> [] \<and> list_all isDigit s then js_exact (decimal s) else None)"

definition js_sort :: "string list \<Rightarrow> string list" where
  "js_sort xs = sort xs"

function js_partOne_loop :: "string list \<Rightarrow> string list \<Rightarrow> nat \<Rightarrow> int \<Rightarrow> int option" where
  "js_partOne_loop left right i summ =
     (if i < length left then
        (if i < length right then
           (case (js_Number (left ! i), js_Number (right ! i)) of
              (Some a, Some b) \<Rightarrow>
                (case js_exact (summ + \<bar>a - b\<bar>) of
                   Some summ' \<Rightarrow> js_partOne_loop left right (i + 1) summ'
                 | None \<Rightarrow> None)
            | _ \<Rightarrow> None)
         else None)
      else Some summ)"
  by pat_completeness auto
termination
  by (relation "measure (\<lambda>(left, right, i, summ). length left - i)") auto

text \<open>\<^verbatim>\<open>partOne\<close> sorts both arrays in place before it sums.\<close>

definition js_partOne :: "string list \<Rightarrow> string list \<Rightarrow> int option" where
  "js_partOne left right = js_partOne_loop (js_sort left) (js_sort right) 0 0"

fun js_partTwo_loop :: "string list \<Rightarrow> string list \<Rightarrow> int \<Rightarrow> int option" where
  "js_partTwo_loop [] right summ = Some summ"
| "js_partTwo_loop (x # rest) right summ =
     (case js_Number x of
        Some a \<Rightarrow>
          (case js_exact (a * int (length (filter (\<lambda>element. element = x) right))) of
             Some p \<Rightarrow>
               (case js_exact (summ + p) of
                  Some summ' \<Rightarrow> js_partTwo_loop rest right summ'
                | None \<Rightarrow> None)
           | None \<Rightarrow> None)
      | None \<Rightarrow> None)"

definition js_partTwo :: "string list \<Rightarrow> string list \<Rightarrow> int option" where
  "js_partTwo left right = js_partTwo_loop left right 0"

text \<open>The program calls \<^verbatim>\<open>partTwo\<close> after \<^verbatim>\<open>partOne\<close>, on the arrays \<^verbatim>\<open>partOne\<close> has
  sorted.\<close>

definition js_main :: "string list \<Rightarrow> string list \<Rightarrow> int option \<times> int option" where
  "js_main left right = (js_partOne left right, js_partTwo (js_sort left) (js_sort right))"

section \<open>Instruction Scanner\<close>

text \<open>
  The regular expression \<^verbatim>\<open>mul\((\d+),(\d+)\)\<close> tried at the head of a string: the
  literal \<^verbatim>\<open>mul(\<close>, the longest run of ASCII digits, a comma, the longest run of
  digits, a closing parenthesis. A digit run is followed by a character that is not a
  digit, so no shorter run can match. The result is the two groups and the text after the
  match.
\<close>

definition match_here :: "string \<Rightarrow> (string \<times> string \<times> string) option" where
  "match_here s =
     (if HasPrefix s ''mul('' then
        (let X = takeWhile isDigit (drop 4 s);
             s2 = dropWhile isDigit (drop 4 s)
         in if X \<noteq> [] \<and> HasPrefix s2 '','' then
              (let Y = takeWhile isDigit (drop 1 s2);
                   s4 = dropWhile isDigit (drop 1 s2)
               in if Y \<noteq> [] \<and> HasPrefix s4 '')'' then Some (X, Y, drop 1 s4) else None)
            else None)
      else None)"

lemma HasPrefix_length: "HasPrefix s p \<Longrightarrow> length p \<le> length s"
proof -
  assume "HasPrefix s p"
  then have "length (take (length p) s) = length p" by (simp add: HasPrefix_def)
  then show ?thesis by simp
qed

lemma HasPrefix_nth: "HasPrefix s p \<Longrightarrow> i < length p \<Longrightarrow> s ! i = p ! i"
  unfolding HasPrefix_def by (metis nth_take)

lemma match_here_shorter:
  "match_here s = Some (X, Y, rest) \<Longrightarrow> length rest < length s"
proof -
  assume a: "match_here s = Some (X, Y, rest)"
  have p: "HasPrefix s ''mul(''"
    using a unfolding match_here_def by (simp split: if_splits)
  have r: "rest = drop 1 (dropWhile isDigit (drop 1 (dropWhile isDigit (drop 4 s))))"
    using a p unfolding match_here_def Let_def by (simp split: if_splits)
  from HasPrefix_length [OF p] have "4 \<le> length s" by simp
  moreover have "length rest \<le> length (drop 4 s)"
    unfolding r
    using length_dropWhile_le [of isDigit "drop 4 s"]
      length_dropWhile_le [of isDigit "drop 1 (dropWhile isDigit (drop 4 s))"]
    by simp
  ultimately show ?thesis by simp
qed

text \<open>\<^verbatim>\<open>FindAllStringSubmatch(memory, -1)\<close>: the leftmost match, then the search goes on
  after it. Each match is the list of the whole match and the two groups.\<close>

function getMatches :: "string \<Rightarrow> string list list" where
  "getMatches s =
     (if s = [] then []
      else (case match_here s of
              Some (X, Y, rest) \<Rightarrow> [take (length s - length rest) s, X, Y] # getMatches rest
            | None \<Rightarrow> getMatches (tl s)))"
  by pat_completeness auto
termination
  by (relation "measure length") (auto dest: match_here_shorter)

definition partOne_memory :: "string \<Rightarrow> go_int" where
  "partOne_memory memory =
     foldl (\<lambda>summ match.
              (case (Atoi (match ! 1), Atoi (match ! 2)) of
                 (Some a, Some b) \<Rightarrow> summ + a * b
               | _ \<Rightarrow> summ))
       0 (getMatches memory)"

text \<open>
  \<^verbatim>\<open>partTwo\<close> slices \<^verbatim>\<open>memory[:i]\<close> and \<^verbatim>\<open>memory[i:]\<close> at an index that
  \<^verbatim>\<open>strings.Index\<close> found (\<open>Index_bounds\<close>, \<open>Contains_append\<close>: it is never \<open>-1\<close> there
  and never beyond the length), so the slices are \<open>take\<close> and \<open>drop\<close>.
\<close>

lemma Index_bounds: "- 1 \<le> Index s substr \<and> Index s substr \<le> int (length s)"
  by (induction s) (auto simp: Let_def)

lemma Index_HasPrefix:
  "0 \<le> Index s substr \<Longrightarrow> HasPrefix (drop (nat (Index s substr)) s) substr"
proof (induction s)
  case Nil
  then show ?case by (auto simp: HasPrefix_def split: if_splits)
next
  case (Cons c cs)
  show ?case
  proof (cases "HasPrefix (c # cs) substr")
    case True
    then show ?thesis by simp
  next
    case False
    with Cons.prems have r: "0 \<le> Index cs substr" and e: "Index (c # cs) substr = Index cs substr + 1"
      by (auto simp: Let_def split: if_splits)
    from r have "nat (Index cs substr + 1) = Suc (nat (Index cs substr))" by simp
    with Cons.IH [OF r] e show ?thesis by simp
  qed
qed

lemma HasPrefix_append: "HasPrefix s (p @ q) \<Longrightarrow> HasPrefix s p"
proof -
  assume "HasPrefix s (p @ q)"
  then have "take (length p + length q) s = p @ q" by (simp add: HasPrefix_def)
  then have "take (length p) (take (length p + length q) s) = take (length p) (p @ q)" by simp
  then show ?thesis by (simp add: HasPrefix_def min_def)
qed

lemma Index_found: "HasPrefix (drop n s) substr \<Longrightarrow> n \<le> length s \<Longrightarrow> 0 \<le> Index s substr"
proof (induction s arbitrary: n)
  case Nil
  then show ?case by (auto simp: HasPrefix_def)
next
  case (Cons c cs)
  show ?case
  proof (cases "HasPrefix (c # cs) substr")
    case True
    then show ?thesis by simp
  next
    case False
    with Cons.prems obtain m where "n = Suc m" by (cases n) auto
    with Cons.prems have "HasPrefix (drop m cs) substr" "m \<le> length cs" by auto
    from Cons.IH [OF this] False show ?thesis by (simp add: Let_def)
  qed
qed

lemma Contains_append: "Contains s (p @ q) \<Longrightarrow> Contains s p"
proof -
  assume "Contains s (p @ q)"
  then have nn: "0 \<le> Index s (p @ q)" by (simp add: Contains_def)
  have "HasPrefix (drop (nat (Index s (p @ q))) s) p"
    using Index_HasPrefix [OF nn] by (rule HasPrefix_append)
  moreover have "nat (Index s (p @ q)) \<le> length s"
    using Index_bounds [of s "p @ q"] by linarith
  ultimately show ?thesis unfolding Contains_def by (rule Index_found)
qed

function partTwo_memory :: "string \<Rightarrow> bool \<Rightarrow> go_int" where
  "partTwo_memory memory enabled =
     (if enabled then
        (if Contains memory ''don't()'' then
           (let i = Index memory ''don't''
            in partOne_memory (take (nat i) memory) + partTwo_memory (drop (nat i) memory) False)
         else partOne_memory memory)
      else
        (if Contains memory ''do()'' then
           (let i = Index memory ''do()''
            in partTwo_memory (drop (nat i) memory) True)
         else 0))"
  by pat_completeness auto
termination
proof (relation "measure (\<lambda>(memory, enabled).
         3 * length memory + (if enabled then (if HasPrefix memory ''don't'' then 2 else 0) else 1))",
       goal_cases)
  case 1
  show ?case by simp
next
  case (2 memory enabled i)
  have c: "Contains memory (''don't'' @ ''()'')" using 2 by simp
  then have nn: "0 \<le> Index memory ''don't''"
    using Contains_append unfolding Contains_def by blast
  have le: "nat (Index memory ''don't'') \<le> length memory"
    using Index_bounds [of memory "''don't''"] by linarith
  show ?case
  proof (cases "Index memory ''don't'' = 0")
    case True
    with Index_HasPrefix [OF nn] 2 show ?thesis by simp
  next
    case False
    with nn le have "0 < nat (Index memory ''don't'')" by simp
    with le 2 show ?thesis by auto
  qed
next
  case (3 memory enabled i)
  have nn: "0 \<le> Index memory ''do()''" using 3 by (simp add: Contains_def)
  have le: "nat (Index memory ''do()'') \<le> length memory"
    using Index_bounds [of memory "''do()''"] by linarith
  show ?case
  proof (cases "Index memory ''do()'' = 0")
    case True
    with Index_HasPrefix [OF nn] have "HasPrefix memory ''do()''" by simp
    then have "\<not> HasPrefix memory ''don't''"
      using HasPrefix_nth [of memory "''do()''" 2] HasPrefix_nth [of memory "''don't''" 2]
      by auto
    with True 3 show ?thesis by simp
  next
    case False
    with nn le have "0 < nat (Index memory ''do()'')" by simp
    with le 3 show ?thesis by auto
  qed
qed

text \<open>
  The toggle scan as the specification words it, to compare \<^verbatim>\<open>partTwo\<close> with: one pass
  from left to right with an enabled flag, which \<^verbatim>\<open>don't()\<close> clears and \<^verbatim>\<open>do()\<close> sets,
  adding the product of each match found while enabled. A product is computed as
  \<^verbatim>\<open>partOne\<close> computes it.
\<close>

definition mul_product :: "string \<Rightarrow> string \<Rightarrow> go_int" where
  "mul_product X Y = (case (Atoi X, Atoi Y) of (Some a, Some b) \<Rightarrow> a * b | _ \<Rightarrow> 0)"

function toggle_scan :: "bool \<Rightarrow> string \<Rightarrow> go_int" where
  "toggle_scan enabled s =
     (if s = [] then 0
      else if HasPrefix s ''don't()'' then toggle_scan False (tl s)
      else if HasPrefix s ''do()'' then toggle_scan True (tl s)
      else (case match_here s of
              Some (X, Y, rest) \<Rightarrow> (if enabled then mul_product X Y else 0) + toggle_scan enabled rest
            | None \<Rightarrow> toggle_scan enabled (tl s)))"
  by pat_completeness auto
termination
  by (relation "measure (\<lambda>(enabled, s). length s)") (auto dest: match_here_shorter)

text \<open>The text \<^verbatim>\<open>mul(X,Y)\<close>.\<close>

definition pattern :: "string \<Rightarrow> string \<Rightarrow> string" where
  "pattern X Y = ''mul('' @ X @ '','' @ Y @ '')''"

text \<open>The occurrence of the pattern at the head of a string, if there is one; the
  occurrences at every position of the memory, from left to right; and the product of an
  occurrence whose operands both fit \<^verbatim>\<open>int\<close>, as an unbounded integer (0 for an
  occurrence with an operand that does not fit).\<close>

definition occ :: "string \<Rightarrow> (string \<times> string) list" where
  "occ s = (case match_here s of Some (X, Y, rest) \<Rightarrow> [(X, Y)] | None \<Rightarrow> [])"

definition mul_occurrences :: "string \<Rightarrow> (string \<times> string) list" where
  "mul_occurrences memory =
     concat (map (\<lambda>p. case match_here (drop p memory) of
                          Some (X, Y, rest) \<Rightarrow> [(X, Y)]
                        | None \<Rightarrow> [])
               [0..<length memory])"

definition operands_ok :: "string \<times> string \<Rightarrow> bool" where
  "operands_ok XY =
     (fst XY \<noteq> [] \<and> snd XY \<noteq> [] \<and> list_all isDigit (fst XY) \<and> list_all isDigit (snd XY))"

definition operand_product :: "string \<times> string \<Rightarrow> int" where
  "operand_product XY =
     (if decimal (fst XY) < 2 ^ 63 \<and> decimal (snd XY) < 2 ^ 63
      then decimal (fst XY) * decimal (snd XY) else 0)"

definition products_sum :: "string \<Rightarrow> int" where
  "products_sum memory = sum_list (map operand_product (mul_occurrences memory))"


text \<open>Every \<^verbatim>\<open>don't\<close> in the memory is the start of a \<^verbatim>\<open>don't()\<close>.\<close>

definition no_bare_dont :: "string \<Rightarrow> bool" where
  "no_bare_dont memory =
     list_all (\<lambda>p. HasPrefix (drop p memory) ''don't()'' \<or> \<not> HasPrefix (drop p memory) ''don't'')
       [0..<length memory]"

text \<open>The distance the specification asks of Part 1: both columns in ascending numeric
  order, then the sum of the absolute differences of the elements of the same rank.\<close>

definition sorted_distance :: "int list \<Rightarrow> int list \<Rightarrow> int" where
  "sorted_distance left right =
     sum_list (map2 (\<lambda>l r. \<bar>l - r\<bar>) (sort left) (sort right))"

text \<open>A line all of whose fields \<^verbatim>\<open>strconv.Atoi\<close> accepts.\<close>

definition line_ok :: "string \<Rightarrow> bool" where
  "line_ok line = list_all (\<lambda>field. Atoi field \<noteq> None) (Fields line)"

declare Fields_from.simps [simp del] isSafe_loop.simps [simp del]
  canBeSafe_loop.simps [simp del] partOne_lists_loop.simps [simp del]
  js_partOne_loop.simps [simp del] getMatches.simps [simp del]
  partTwo_memory.simps [simp del] toggle_scan.simps [simp del]

section \<open>Properties of the Report Safety Checker\<close>

subsection \<open>The safety check\<close>

lemma all_from_split:
  "i < n \<Longrightarrow>
   (\<forall>j. i \<le> j \<and> j < n \<longrightarrow> P j) = (P i \<and> (\<forall>j. Suc i \<le> j \<and> j < n \<longrightarrow> P j))"
  by (metis Suc_leD Suc_leI le_neq_implies_less order_refl)

text \<open>The loop from index \<open>i\<close> on: a flag stays set exactly when it was set and every
  remaining difference is in its range.\<close>

lemma isSafe_loop_iff:
  "isSafe_loop report i increasing decreasing =
     ((increasing \<and> (\<forall>j. i \<le> j \<and> j < length report \<longrightarrow>
          1 \<le> sint (report ! j - report ! (j - 1)) \<and> sint (report ! j - report ! (j - 1)) \<le> 3))
    \<or> (decreasing \<and> (\<forall>j. i \<le> j \<and> j < length report \<longrightarrow>
          - 3 \<le> sint (report ! j - report ! (j - 1)) \<and> sint (report ! j - report ! (j - 1)) \<le> - 1)))"
proof (induction report i increasing decreasing rule: isSafe_loop.induct)
  case (1 report i increasing decreasing)
  show ?case
  proof (cases "i < length report")
    case True
    note IH = "1.IH" [OF True refl]
    show ?thesis
      apply (subst isSafe_loop.simps)
      apply (simp only: True if_True Let_def IH)
      apply (subst all_from_split [OF True])
      apply (subst all_from_split [OF True])
      apply (auto simp: not_less)
      done
  next
    case False
    then show ?thesis
      by (subst isSafe_loop.simps) auto
  qed
qed

lemma isSafe_iff:
  "isSafe report \<longleftrightarrow>
      (\<forall>i. 1 \<le> i \<and> i < length report \<longrightarrow>
          1 \<le> sint (report ! i - report ! (i - 1)) \<and> sint (report ! i - report ! (i - 1)) \<le> 3)
    \<or> (\<forall>i. 1 \<le> i \<and> i < length report \<longrightarrow>
          - 3 \<le> sint (report ! i - report ! (i - 1)) \<and> sint (report ! i - report ! (i - 1)) \<le> - 1)"
  unfolding isSafe_def isSafe_loop_iff by auto

text \<open>Where the subtraction does not overflow, the computed difference is the integer
  difference.\<close>

lemma sint_difference:
  "- (2 ^ 63) \<le> sint a - sint b \<Longrightarrow> sint a - sint b < 2 ^ 63 \<Longrightarrow>
   sint (a - b :: go_int) = sint a - sint b"
  by (simp add: sint_word_ariths signed_take_bit_int_eq_self)

text \<open>
  Claim C4, as the code has it. \<^verbatim>\<open>isSafe(report)\<close> is true if and only if every
  consecutive difference \<^verbatim>\<open>report[i] - report[i-1]\<close>, as the program computes it in
  64-bit wrap-around arithmetic and reads it as a signed value, lies in \<open>[1, 3]\<close>, or every
  one lies in \<open>[-3, -1]\<close>; so a report of length at most 1 is safe. Where no integer
  difference of consecutive elements leaves the range of \<^verbatim>\<open>int\<close>, the same holds of the
  integer differences.
\<close>

theorem isSafe_differences:
  "(isSafe report \<longleftrightarrow>
      (\<forall>i. 1 \<le> i \<and> i < length report \<longrightarrow>
          1 \<le> sint (report ! i - report ! (i - 1)) \<and> sint (report ! i - report ! (i - 1)) \<le> 3)
    \<or> (\<forall>i. 1 \<le> i \<and> i < length report \<longrightarrow>
          - 3 \<le> sint (report ! i - report ! (i - 1)) \<and> sint (report ! i - report ! (i - 1)) \<le> - 1))
   \<and> (length report \<le> 1 \<longrightarrow> isSafe report)
   \<and> ((\<forall>i. 1 \<le> i \<and> i < length report \<longrightarrow>
          - (2 ^ 63) \<le> sint (report ! i) - sint (report ! (i - 1))
          \<and> sint (report ! i) - sint (report ! (i - 1)) < 2 ^ 63) \<longrightarrow>
        (isSafe report \<longleftrightarrow>
           (\<forall>i. 1 \<le> i \<and> i < length report \<longrightarrow>
              1 \<le> sint (report ! i) - sint (report ! (i - 1))
              \<and> sint (report ! i) - sint (report ! (i - 1)) \<le> 3)
         \<or> (\<forall>i. 1 \<le> i \<and> i < length report \<longrightarrow>
              - 3 \<le> sint (report ! i) - sint (report ! (i - 1))
              \<and> sint (report ! i) - sint (report ! (i - 1)) \<le> - 1)))"
proof (intro conjI impI)
  show "isSafe report \<longleftrightarrow>
      (\<forall>i. 1 \<le> i \<and> i < length report \<longrightarrow>
          1 \<le> sint (report ! i - report ! (i - 1)) \<and> sint (report ! i - report ! (i - 1)) \<le> 3)
    \<or> (\<forall>i. 1 \<le> i \<and> i < length report \<longrightarrow>
          - 3 \<le> sint (report ! i - report ! (i - 1)) \<and> sint (report ! i - report ! (i - 1)) \<le> - 1)"
    by (rule isSafe_iff)
next
  assume "length report \<le> 1"
  then show "isSafe report" unfolding isSafe_iff by auto
next
  assume b: "\<forall>i. 1 \<le> i \<and> i < length report \<longrightarrow>
          - (2 ^ 63) \<le> sint (report ! i) - sint (report ! (i - 1))
          \<and> sint (report ! i) - sint (report ! (i - 1)) < 2 ^ 63"
  have e: "sint (report ! i - report ! (i - 1)) = sint (report ! i) - sint (report ! (i - 1))"
    if "1 \<le> i \<and> i < length report" for i
    using b that by (intro sint_difference) auto
  show "isSafe report \<longleftrightarrow>
           (\<forall>i. 1 \<le> i \<and> i < length report \<longrightarrow>
              1 \<le> sint (report ! i) - sint (report ! (i - 1))
              \<and> sint (report ! i) - sint (report ! (i - 1)) \<le> 3)
         \<or> (\<forall>i. 1 \<le> i \<and> i < length report \<longrightarrow>
              - 3 \<le> sint (report ! i) - sint (report ! (i - 1))
              \<and> sint (report ! i) - sint (report ! (i - 1)) \<le> - 1)"
    unfolding isSafe_iff using e by auto
qed

theorem isSafe_differences_witness:
  "isSafe [9, 7] \<and> isSafe [5]"
proof -
  have i1: "i = 1" if "1 \<le> i \<and> i < length [9, 7 :: go_int]" for i :: nat
    using that by simp
  have nov: "\<forall>i. 1 \<le> i \<and> i < length [9, 7 :: go_int] \<longrightarrow>
          - (2 ^ 63) \<le> sint ([9, 7 :: go_int] ! i) - sint ([9, 7 :: go_int] ! (i - 1))
        \<and> sint ([9, 7 :: go_int] ! i) - sint ([9, 7 :: go_int] ! (i - 1)) < 2 ^ 63"
  proof (intro allI impI)
    fix i :: nat
    assume "1 \<le> i \<and> i < length [9, 7 :: go_int]"
    then have "i = 1" by (rule i1)
    then show "- (2 ^ 63) \<le> sint ([9, 7 :: go_int] ! i) - sint ([9, 7 :: go_int] ! (i - 1))
        \<and> sint ([9, 7 :: go_int] ! i) - sint ([9, 7 :: go_int] ! (i - 1)) < 2 ^ 63"
      by simp
  qed
  have dec: "\<forall>i. 1 \<le> i \<and> i < length [9, 7 :: go_int] \<longrightarrow>
          - 3 \<le> sint ([9, 7 :: go_int] ! i) - sint ([9, 7 :: go_int] ! (i - 1))
        \<and> sint ([9, 7 :: go_int] ! i) - sint ([9, 7 :: go_int] ! (i - 1)) \<le> - 1"
  proof (intro allI impI)
    fix i :: nat
    assume "1 \<le> i \<and> i < length [9, 7 :: go_int]"
    then have "i = 1" by (rule i1)
    then show "- 3 \<le> sint ([9, 7 :: go_int] ! i) - sint ([9, 7 :: go_int] ! (i - 1))
        \<and> sint ([9, 7 :: go_int] ! i) - sint ([9, 7 :: go_int] ! (i - 1)) \<le> - 1"
      by simp
  qed
  have "isSafe [9, 7]"
    using isSafe_differences [of "[9, 7]"] nov dec by blast
  moreover have "isSafe [5]"
    using isSafe_differences [of "[5]"] by simp
  ultimately show ?thesis by simp
qed

text \<open>Claim C4 as stated, on the integer differences, fails: the difference of these two
  elements is \<open>-18446744073709551614\<close>, in neither interval, the program computes 2 for
  it, and the report is safe.\<close>

theorem isSafe_wrapped_difference:
  "isSafe [9223372036854775807, - 9223372036854775807]
   \<and> sint (- 9223372036854775807 :: go_int) - sint (9223372036854775807 :: go_int)
       = - 18446744073709551614
   \<and> sint ((- 9223372036854775807 :: go_int) - 9223372036854775807) = 2"
  by code_simp

text \<open>The worked examples of the specification.\<close>

lemma isSafe_examples:
  "isSafe [7, 6, 4, 2, 1] \<and> \<not> isSafe [1, 2, 7, 8, 9] \<and> \<not> isSafe [1, 3, 2, 4, 5]
   \<and> canBeSafe [1, 3, 2, 4, 5] \<and> isSafe [42]"
  by code_simp

subsection \<open>Removing one element\<close>

lemma isSafe_tl: "isSafe report \<Longrightarrow> isSafe (tl report)"
proof (cases report)
  case Nil
  then show ?thesis by (simp add: isSafe_iff)
next
  case (Cons x xs)
  assume "isSafe report"
  then have
    "(\<forall>i. 1 \<le> i \<and> i < length (x # xs) \<longrightarrow>
          1 \<le> sint ((x # xs) ! i - (x # xs) ! (i - 1)) \<and> sint ((x # xs) ! i - (x # xs) ! (i - 1)) \<le> 3)
    \<or> (\<forall>i. 1 \<le> i \<and> i < length (x # xs) \<longrightarrow>
          - 3 \<le> sint ((x # xs) ! i - (x # xs) ! (i - 1)) \<and> sint ((x # xs) ! i - (x # xs) ! (i - 1)) \<le> - 1)"
    unfolding Cons isSafe_iff .
  then show ?thesis
  proof
    assume a: "\<forall>i. 1 \<le> i \<and> i < length (x # xs) \<longrightarrow>
          1 \<le> sint ((x # xs) ! i - (x # xs) ! (i - 1)) \<and> sint ((x # xs) ! i - (x # xs) ! (i - 1)) \<le> 3"
    have "\<forall>i. 1 \<le> i \<and> i < length xs \<longrightarrow>
          1 \<le> sint (xs ! i - xs ! (i - 1)) \<and> sint (xs ! i - xs ! (i - 1)) \<le> 3"
    proof (intro allI impI)
      fix i assume i: "1 \<le> i \<and> i < length xs"
      from a [rule_format, of "Suc i"] i
      show "1 \<le> sint (xs ! i - xs ! (i - 1)) \<and> sint (xs ! i - xs ! (i - 1)) \<le> 3"
        by (cases i) auto
    qed
    then show ?thesis unfolding Cons isSafe_iff by simp
  next
    assume a: "\<forall>i. 1 \<le> i \<and> i < length (x # xs) \<longrightarrow>
          - 3 \<le> sint ((x # xs) ! i - (x # xs) ! (i - 1)) \<and> sint ((x # xs) ! i - (x # xs) ! (i - 1)) \<le> - 1"
    have "\<forall>i. 1 \<le> i \<and> i < length xs \<longrightarrow>
          - 3 \<le> sint (xs ! i - xs ! (i - 1)) \<and> sint (xs ! i - xs ! (i - 1)) \<le> - 1"
    proof (intro allI impI)
      fix i assume i: "1 \<le> i \<and> i < length xs"
      from a [rule_format, of "Suc i"] i
      show "- 3 \<le> sint (xs ! i - xs ! (i - 1)) \<and> sint (xs ! i - xs ! (i - 1)) \<le> - 1"
        by (cases i) auto
    qed
    then show ?thesis unfolding Cons isSafe_iff by simp
  qed
qed

lemma canBeSafe_loop_iff:
  "canBeSafe_loop report i =
     (\<exists>j. i \<le> j \<and> j < length report \<and> isSafe (take j report @ drop (j + 1) report))"
proof (induction report i rule: canBeSafe_loop.induct)
  case (1 report i)
  show ?case
  proof (cases "i < length report")
    case True
    show ?thesis
    proof (cases "isSafe (take i report @ drop (i + 1) report)")
      case safe: True
      with True show ?thesis
        by (subst canBeSafe_loop.simps) auto
    next
      case unsafe: False
      have "canBeSafe_loop report i = canBeSafe_loop report (i + 1)"
        using True unsafe by (subst canBeSafe_loop.simps) simp
      also have "\<dots> = (\<exists>j. i + 1 \<le> j \<and> j < length report
          \<and> isSafe (take j report @ drop (j + 1) report))"
        using "1.IH" [OF True refl unsafe] .
      also have "\<dots> = (\<exists>j. i \<le> j \<and> j < length report
          \<and> isSafe (take j report @ drop (j + 1) report))"
        using unsafe by (metis Suc_eq_plus1 Suc_leD Suc_leI le_neq_implies_less)
      finally show ?thesis .
    qed
  next
    case False
    then show ?thesis
      by (subst canBeSafe_loop.simps) auto
  qed
qed

text \<open>What \<^verbatim>\<open>canBeSafe\<close> computes on every report: whether some single removal gives a
  safe report.\<close>

lemma canBeSafe_iff:
  "canBeSafe report = (\<exists>i < length report. isSafe (take i report @ drop (i + 1) report))"
  unfolding canBeSafe_def canBeSafe_loop_iff by auto

text \<open>On a report that is not empty this is the disjunction of the specification: a
  safe report stays safe without its first element.\<close>

lemma canBeSafe_nonempty:
  assumes "report \<noteq> []"
  shows "canBeSafe report \<longleftrightarrow>
     isSafe report \<or> (\<exists>i < length report. isSafe (take i report @ drop (i + 1) report))"
proof -
  have "isSafe report \<Longrightarrow> \<exists>i < length report. isSafe (take i report @ drop (i + 1) report)"
  proof -
    assume "isSafe report"
    then have "isSafe (take 0 report @ drop (0 + 1) report)"
      using isSafe_tl [of report] by (simp add: drop_Suc)
    with assms show ?thesis by (intro exI [of _ 0]) simp
  qed
  then show ?thesis unfolding canBeSafe_iff by blast
qed

text \<open>
  Claim C1. \<^verbatim>\<open>canBeSafe(report)\<close> is claimed true whenever \<^verbatim>\<open>isSafe(report)\<close> holds, the
  empty report included. On the empty report the loop over the removal indices does not
  run: the report is safe and \<^verbatim>\<open>canBeSafe\<close> returns false, so \<^verbatim>\<open>partTwo\<close> does not
  count a report that \<^verbatim>\<open>partOne\<close> counts.
\<close>

theorem canBeSafe_empty_report:
  "isSafe [] \<and> canBeSafe [] = False
   \<and> partOne_reports [[]] = 1 \<and> partTwo_reports [[]] = 0"
  by (simp add: isSafe_def canBeSafe_def isSafe_loop.simps canBeSafe_loop.simps
      partOne_reports_def partTwo_reports_def)

subsection \<open>Reading the reports\<close>

lemma parse_fields_ok:
  "list_all (\<lambda>field. Atoi field \<noteq> None) fields \<Longrightarrow>
   parse_fields fields report = Inr (report @ map (\<lambda>field. the (Atoi field)) fields)"
  by (induction fields arbitrary: report) auto

lemma parse_fields_bad:
  "\<not> list_all (\<lambda>field. Atoi field \<noteq> None) fields \<Longrightarrow>
   \<exists>field \<in> set fields. Atoi field = None \<and> parse_fields fields report = Inl (PanicAtoi field)"
  by (induction fields arbitrary: report) (auto split: option.splits)

lemma parse_lines_ok:
  "list_all line_ok lines \<Longrightarrow>
   parse_lines lines reports =
     Inr (reports @ map (\<lambda>line. map (\<lambda>field. the (Atoi field)) (Fields line)) lines)"
  by (induction lines arbitrary: reports) (auto simp: line_ok_def parse_fields_ok)

lemma parse_lines_bad:
  "\<not> list_all line_ok lines \<Longrightarrow>
   \<exists>line \<in> set lines. \<exists>field \<in> set (Fields line).
      Atoi field = None \<and> parse_lines lines reports = Inl (PanicAtoi field)"
proof (induction lines arbitrary: reports)
  case Nil
  then show ?case by simp
next
  case (Cons line rest)
  show ?case
  proof (cases "line_ok line")
    case True
    with Cons.prems have "\<not> list_all line_ok rest" by simp
    from Cons.IH [OF this, of "reports @ [map (\<lambda>field. the (Atoi field)) (Fields line)]"] True
    show ?thesis by (auto simp: line_ok_def parse_fields_ok)
  next
    case False
    then obtain field where "field \<in> set (Fields line)" "Atoi field = None"
      "parse_fields (Fields line) [] = Inl (PanicAtoi field)"
      using parse_fields_bad [of "Fields line" "[]"] by (auto simp: line_ok_def)
    then show ?thesis by auto
  qed
qed


lemma lines_ok_iff:
  "list_all line_ok lines \<longleftrightarrow>
     \<not> (\<exists>line \<in> set lines. \<exists>field \<in> set (Fields line). Atoi field = None)"
  by (auto simp: line_ok_def list_all_iff)

text \<open>
  Claim C8. Parsing is fatal exactly when some white-space separated field of some line
  is not an integer \<^verbatim>\<open>strconv.Atoi\<close> accepts: then \<^verbatim>\<open>readPuzzleInput\<close> panics with that
  conversion error, whatever the scanner reports later; otherwise, the scanner having
  read the file to its end, it returns the reports of all the lines.
\<close>

theorem readPuzzleInput_reports_fatal:
  "((\<exists>field. readPuzzleInput_reports (File lines scan_err) = Inl (PanicAtoi field))
      \<longleftrightarrow> (\<exists>line \<in> set lines. \<exists>field \<in> set (Fields line). Atoi field = None))
   \<and> ((\<forall>line \<in> set lines. \<forall>field \<in> set (Fields line). Atoi field \<noteq> None) \<longrightarrow>
        readPuzzleInput_reports (File lines False) =
          Inr (map (\<lambda>line. map (\<lambda>field. the (Atoi field)) (Fields line)) lines))"
proof (cases "list_all line_ok lines")
  case True
  then have "parse_lines lines [] =
      Inr (map (\<lambda>line. map (\<lambda>field. the (Atoi field)) (Fields line)) lines)"
    by (simp add: parse_lines_ok)
  with True show ?thesis
    by (auto simp: readPuzzleInput_reports_def lines_ok_iff)
next
  case False
  from parse_lines_bad [OF this, of "[]"] obtain line field where
    bad: "line \<in> set lines" "field \<in> set (Fields line)" "Atoi field = None"
    and p: "parse_lines lines [] = Inl (PanicAtoi field)"
    by blast
  from p have "readPuzzleInput_reports (File lines scan_err) = Inl (PanicAtoi field)"
    by (simp add: readPuzzleInput_reports_def)
  with bad show ?thesis by blast
qed

theorem readPuzzleInput_reports_fatal_witness:
  "(\<exists>field. readPuzzleInput_reports (File [''1 2'', ''3 x''] False) = Inl (PanicAtoi field))
   \<and> readPuzzleInput_reports (File [''1 2'', ''3 4''] False) = Inr [[1, 2], [3, 4]]"
proof -
  have f1: "Fields ''1 2'' = [''1'', ''2'']" and f2: "Fields ''3 x'' = [''3'', ''x'']"
    and f3: "Fields ''3 4'' = [''3'', ''4'']"
    by code_simp+
  have a: "Atoi ''1'' = Some 1" "Atoi ''2'' = Some 2" "Atoi ''3'' = Some 3" "Atoi ''4'' = Some 4"
    "Atoi ''x'' = None"
    by code_simp+
  show ?thesis
    using readPuzzleInput_reports_fatal [of "[''1 2'', ''3 x'']" False]
      readPuzzleInput_reports_fatal [of "[''1 2'', ''3 4'']" False]
    by (simp add: f1 f2 f3 a)
qed

lemma Fields_empty: "Fields [] = []"
  by (simp add: Fields_def Fields_from.simps)

text \<open>
  Claim C7, as the code has it. No line is skipped: every line the scanner delivers
  gives one report, with one value for each field of the line. A line with a field gives
  a report that is not empty, an empty line gives an empty report (and a malformed
  line is fatal, see C8).
\<close>

theorem readPuzzleInput_reports_one_per_line:
  "readPuzzleInput_reports (File lines scan_err) = Inr reports \<Longrightarrow>
   length reports = length lines \<and>
   (\<forall>i < length lines. length (reports ! i) = length (Fields (lines ! i))) \<and>
   (\<forall>i < length lines. lines ! i = [] \<longrightarrow> reports ! i = [])"
proof -
  assume a: "readPuzzleInput_reports (File lines scan_err) = Inr reports"
  have ok: "list_all line_ok lines"
  proof (rule ccontr)
    assume "\<not> list_all line_ok lines"
    from parse_lines_bad [OF this, of "[]"] a show False
      by (auto simp: readPuzzleInput_reports_def)
  qed
  from a have r: "reports = map (\<lambda>line. map (\<lambda>field. the (Atoi field)) (Fields line)) lines"
    by (auto simp: readPuzzleInput_reports_def parse_lines_ok [OF ok] split: if_splits)
  show ?thesis by (simp add: r Fields_empty)
qed

theorem readPuzzleInput_reports_one_per_line_witness:
  "readPuzzleInput_reports (File [''7 6 4'', '''', ''1 2''] False) = Inr [[7, 6, 4], [], [1, 2]]
   \<and> length [[7, 6, 4], [], [1, 2 :: go_int]] = length [''7 6 4'', '''', ''1 2'']
   \<and> [[7, 6, 4], [], [1, 2 :: go_int]] ! 1 = []"
proof -
  have h: "readPuzzleInput_reports (File [''7 6 4'', '''', ''1 2''] False) = Inr [[7, 6, 4], [], [1, 2]]"
    by code_simp
  show ?thesis
    using h readPuzzleInput_reports_one_per_line [OF h] by simp
qed

text \<open>Claim C7 as stated fails: the empty second line of this input is parsed into an
  empty report.\<close>

theorem readPuzzleInput_reports_empty_line:
  "readPuzzleInput_reports
     (File (ScanLines (''7 6 4'' @ [CHR 0x0A, CHR 0x0A] @ ''1 2'' @ [CHR 0x0A])) False)
   = Inr [[7, 6, 4], [], [1, 2]]"
  by code_simp

section \<open>Properties of the Distance/Similarity Calculator\<close>

subsection \<open>Reading the two columns\<close>

lemma read_pairs_invariant:
  "read_pairs lines left right out = (left', right', out') \<Longrightarrow>
   length left = length right \<Longrightarrow> MismatchedLengths \<notin> set out \<Longrightarrow>
   length left' = length right' \<and> MismatchedLengths \<notin> set out'"
proof (induction lines arbitrary: left right out)
  case Nil
  then show ?case by simp
next
  case (Cons line rest)
  show ?case
  proof (cases "2 \<le> length (Fields line)")
    case False
    with Cons.prems(1) have "read_pairs rest left right out = (left', right', out')"
      by (simp add: Let_def)
    from Cons.IH [OF this Cons.prems(2) Cons.prems(3)] show ?thesis .
  next
    case long: True
    show ?thesis
    proof (cases "Atoi (Fields line ! 0)")
      case None
      with long Cons.prems(1) have
        "read_pairs rest left right (out @ [InvalidInput (Fields line ! 0)]) = (left', right', out')"
        by (simp add: Let_def)
      from Cons.IH [OF this Cons.prems(2)] Cons.prems(3) show ?thesis by simp
    next
      case l: (Some l)
      show ?thesis
      proof (cases "Atoi (Fields line ! 1)")
        case None
        with long l Cons.prems(1) have
          "read_pairs rest left right (out @ [InvalidInput (Fields line ! 1)]) = (left', right', out')"
          by (simp add: Let_def)
        from Cons.IH [OF this Cons.prems(2)] Cons.prems(3) show ?thesis by simp
      next
        case (Some r)
        with long l Cons.prems(1) have
          "read_pairs rest (left @ [l]) (right @ [r]) out = (left', right', out')"
          by (simp add: Let_def)
        from Cons.IH [OF this _ Cons.prems(3)] Cons.prems(2) show ?thesis by simp
      qed
    qed
  qed
qed

lemma partOne_lists_loop_in_bounds:
  "length left \<le> length right \<Longrightarrow> \<exists>result. partOne_lists_loop left right i summ = Inr result"
proof (induction left right i summ rule: partOne_lists_loop.induct)
  case (1 left right i summ)
  show ?case
  proof (cases "i < length left")
    case True
    with "1.prems" have r: "i < length right" by simp
    from "1.IH" [OF True r "1.prems"] True r show ?thesis
      by (subst partOne_lists_loop.simps) simp
  next
    case False
    then show ?thesis by (subst partOne_lists_loop.simps) simp
  qed
qed

text \<open>
  Claim C9. The two slices \<^verbatim>\<open>readPuzzleInput\<close> returns have the same length, since a
  line adds to both or to neither; so the warning about mismatched lengths is never
  printed, and \<^verbatim>\<open>partOne\<close> reads \<^verbatim>\<open>right[i]\<close> within bounds (it does not panic).
\<close>

theorem readPuzzleInput_lists_equal_lengths:
  "readPuzzleInput_lists f = Inr (left, right, out) \<Longrightarrow>
   length left = length right \<and> MismatchedLengths \<notin> set out
   \<and> (\<exists>result. partOne_lists left right = Inr result)"
proof -
  assume a: "readPuzzleInput_lists f = Inr (left, right, out)"
  then obtain lines scan_err where f: "f = File lines scan_err"
    by (cases f) (auto simp: readPuzzleInput_lists_def)
  obtain l r out0 where rp: "read_pairs lines [] [] [] = (l, r, out0)"
    by (cases "read_pairs lines [] [] []") auto
  from read_pairs_invariant [OF rp] have inv: "length l = length r" "MismatchedLengths \<notin> set out0"
    by auto
  from a f rp inv have "left = sort_Ints l" "right = sort_Ints r" "out = out0"
    by (auto simp: readPuzzleInput_lists_def sort_Ints_def split: if_splits)
  with inv have len: "length left = length right" and o: "MismatchedLengths \<notin> set out"
    by (auto simp: sort_Ints_def)
  from len partOne_lists_loop_in_bounds [of left right 0 0]
  have "\<exists>result. partOne_lists left right = Inr result"
    by (simp add: partOne_lists_def)
  with len o show ?thesis by simp
qed

theorem readPuzzleInput_lists_equal_lengths_witness:
  "readPuzzleInput_lists (File [''3   4'', ''x 1'', ''7'', ''1   9 5'', ''2 y''] False)
     = Inr ([1, 3], [4, 9], [InvalidInput ''x'', InvalidInput ''y''])
   \<and> length [1, 3 :: go_int] = length [4, 9 :: go_int]
   \<and> MismatchedLengths \<notin> set [InvalidInput ''x'', InvalidInput ''y'']
   \<and> (\<exists>result. partOne_lists [1, 3] [4, 9] = Inr result)"
proof -
  have h: "readPuzzleInput_lists (File [''3   4'', ''x 1'', ''7'', ''1   9 5'', ''2 y''] False)
     = Inr ([1, 3], [4, 9], [InvalidInput ''x'', InvalidInput ''y''])"
    by code_simp
  show ?thesis
    using h readPuzzleInput_lists_equal_lengths [OF h] by simp
qed

subsection \<open>The distance of the sorted columns\<close>

text \<open>The Go program: \<^verbatim>\<open>readPuzzleInput\<close> sorts the columns numerically and \<^verbatim>\<open>partOne\<close>
  sums the differences of the elements of the same rank. The sum is the one of the
  specification when every difference is below \<open>2 ^ 53\<close>, where the conversion to
  \<^verbatim>\<open>float64\<close> is exact.\<close>

lemma map_insort_key: "map f (insort_key f x xs) = insort (f x) (map f xs)"
  by (induction xs) auto

lemma map_sort_key: "map f (sort_key f xs) = sort (map f xs)"
  by (induction xs) (auto simp: map_insort_key)

lemma abs_float64_exact:
  assumes "\<bar>sint a - sint b\<bar> < 2 ^ 53"
  shows "abs_float64 (a - b) = word_of_int \<bar>sint a - sint b\<bar>"
proof -
  have "(2::int) ^ 53 < 2 ^ 63" by simp
  with assms have "- (2 ^ 63) \<le> sint a - sint b" "sint a - sint b < 2 ^ 63" by linarith+
  then have "sint (a - b) = sint a - sint b" by (rule sint_difference)
  with assms show ?thesis by (simp add: abs_float64_def float64_of_int_def)
qed

lemma partOne_lists_loop_sum:
  assumes "length left = length right"
    and "\<forall>j < length left. \<bar>sint (left ! j) - sint (right ! j)\<bar> < 2 ^ 53"
  shows "partOne_lists_loop left right i summ =
     Inr (summ + word_of_int (sum_list (map2 (\<lambda>l r. \<bar>l - r\<bar>)
             (drop i (map sint left)) (drop i (map sint right)))))"
  using assms
proof (induction left right i summ rule: partOne_lists_loop.induct)
  case (1 left right i summ)
  show ?case
  proof (cases "i < length left")
    case True
    with "1.prems" have r: "i < length right" by simp
    have dl: "drop i (map sint left) = sint (left ! i) # drop (i + 1) (map sint left)"
      using True Cons_nth_drop_Suc [of i "map sint left"] by simp
    have dr: "drop i (map sint right) = sint (right ! i) # drop (i + 1) (map sint right)"
      using r Cons_nth_drop_Suc [of i "map sint right"] by simp
    have e: "abs_float64 (left ! i - right ! i) = word_of_int \<bar>sint (left ! i) - sint (right ! i)\<bar>"
      using "1.prems"(2) True by (intro abs_float64_exact) simp
    have "partOne_lists_loop left right i summ =
        partOne_lists_loop left right (i + 1) (summ + abs_float64 (left ! i - right ! i))"
      using True r by (subst partOne_lists_loop.simps) simp
    also have "\<dots> = Inr (summ + abs_float64 (left ! i - right ! i)
        + word_of_int (sum_list (map2 (\<lambda>l r. \<bar>l - r\<bar>)
             (drop (i + 1) (map sint left)) (drop (i + 1) (map sint right)))))"
      using "1.IH" [OF True r "1.prems"] .
    finally show ?thesis
      by (simp only: dl dr e) (simp add: algebra_simps)
  next
    case False
    with "1.prems" show ?thesis by (subst partOne_lists_loop.simps) simp
  qed
qed

lemma partOne_lists_sorted_distance:
  assumes "length left = length right"
    and "\<forall>a \<in> set left. \<forall>b \<in> set right. \<bar>sint a - sint b\<bar> < 2 ^ 53"
  shows "partOne_lists (sort_Ints left) (sort_Ints right) =
     Inr (word_of_int (sorted_distance (map sint left) (map sint right)))"
proof -
  have len: "length (sort_Ints left) = length (sort_Ints right)"
    using assms(1) by (simp add: sort_Ints_def)
  have b: "\<forall>j < length (sort_Ints left).
      \<bar>sint (sort_Ints left ! j) - sint (sort_Ints right ! j)\<bar> < 2 ^ 53"
  proof (intro allI impI)
    fix j assume j: "j < length (sort_Ints left)"
    then have "sort_Ints left ! j \<in> set (sort_Ints left)" by simp
    moreover from j len have "sort_Ints right ! j \<in> set (sort_Ints right)" by simp
    ultimately show "\<bar>sint (sort_Ints left ! j) - sint (sort_Ints right ! j)\<bar> < 2 ^ 53"
      using assms(2) by (simp add: sort_Ints_def)
  qed
  show ?thesis
    unfolding partOne_lists_def partOne_lists_loop_sum [OF len b] sorted_distance_def
    by (simp add: sort_Ints_def map_sort_key)
qed

text \<open>The Go \<^verbatim>\<open>partOne\<close> does not sort: it is documented for sorted slices, and in the
  program it only receives what \<^verbatim>\<open>readPuzzleInput\<close> has sorted. On the columns in
  input order it pairs the elements by position.\<close>

lemma partOne_lists_input_order:
  "partOne_lists [3, 4, 2, 1, 3, 3] [4, 3, 5, 3, 9, 3] = Inr 13"
  by code_simp

text \<open>
  Claim C5. For the columns \<open>[3,4,2,1,3,3]\<close> and \<open>[4,3,5,3,9,3]\<close> Part 1 is 11 and Part 2
  is 31, in the Go program (whose \<^verbatim>\<open>partOne\<close> receives the columns as
  \<^verbatim>\<open>readPuzzleInput\<close> sorted them) and in the JavaScript program.
\<close>

theorem distance_example:
  "readPuzzleInput_lists
     (File [''3   4'', ''4   3'', ''2   5'', ''1   3'', ''3   9'', ''3   3''] False)
     = Inr ([1, 2, 3, 3, 3, 4], [3, 3, 3, 4, 5, 9], [])
   \<and> partOne_lists [1, 2, 3, 3, 3, 4] [3, 3, 3, 4, 5, 9] = Inr 11
   \<and> partTwo_lists [1, 2, 3, 3, 3, 4] [3, 3, 3, 4, 5, 9] = 31
   \<and> partTwo_lists [3, 4, 2, 1, 3, 3] [4, 3, 5, 3, 9, 3] = 31
   \<and> js_partOne [''3'', ''4'', ''2'', ''1'', ''3'', ''3''] [''4'', ''3'', ''5'', ''3'', ''9'', ''3'']
       = Some 11
   \<and> js_partTwo [''3'', ''4'', ''2'', ''1'', ''3'', ''3''] [''4'', ''3'', ''5'', ''3'', ''9'', ''3'']
       = Some 31
   \<and> js_main [''3'', ''4'', ''2'', ''1'', ''3'', ''3''] [''4'', ''3'', ''5'', ''3'', ''9'', ''3'']
       = (Some 11, Some 31)"
  by code_simp

text \<open>
  Claim C3. Part 1 is claimed to pair the elements of the same numeric rank in each
  implementation. The JavaScript \<^verbatim>\<open>partOne\<close> sorts the fields as strings: on the columns
  \<open>[10, 9]\<close> and \<open>[8, 95]\<close> both arrays stay as they are and the result is
  \<open>|10 - 8| + |9 - 95| = 88\<close>, where the numeric ranks give \<open>|9 - 8| + |10 - 95| = 86\<close>,
  which is what the Go program returns on the same input.
\<close>

theorem js_partOne_sorts_strings:
  "js_partOne [''10'', ''9''] [''8'', ''95''] = Some 88
   \<and> sorted_distance (map decimal [''10'', ''9'']) (map decimal [''8'', ''95'']) = 86
   \<and> readPuzzleInput_lists (File [''10   8'', ''9   95''] False) = Inr ([9, 10], [8, 95], [])
   \<and> partOne_lists [9, 10] [8, 95] = Inr 86"
  by code_simp

section \<open>Properties of the Instruction Scanner\<close>

subsection \<open>The matches\<close>

text \<open>What the pattern matches at the head of a string: exactly the texts
  \<^verbatim>\<open>mul(X,Y)\<close> with two non-empty sequences of decimal digits.\<close>

lemma HasPrefix_iff: "HasPrefix s p \<longleftrightarrow> (\<exists>t. s = p @ t)"
proof
  assume "HasPrefix s p"
  then have "s = p @ drop (length p) s"
    by (metis HasPrefix_def append_take_drop_id)
  then show "\<exists>t. s = p @ t" ..
next
  assume "\<exists>t. s = p @ t"
  then show "HasPrefix s p" by (auto simp: HasPrefix_def)
qed

lemma HasPrefix_drop: "HasPrefix s p \<Longrightarrow> s = p @ drop (length p) s"
  by (metis HasPrefix_def append_take_drop_id)

lemma not_digit [simp]: "\<not> isDigit CHR '',''" "\<not> isDigit CHR '')''" "\<not> isDigit CHR ''d''"
  "\<not> isDigit CHR ''m''"
  by (simp_all add: isDigit_def)

lemma takeWhile_digits: "list_all isDigit X \<Longrightarrow> \<not> isDigit c \<Longrightarrow>
  takeWhile isDigit (X @ c # t) = X \<and> dropWhile isDigit (X @ c # t) = c # t"
  by (induction X) auto

lemma match_here_iff:
  "match_here s = Some (X, Y, rest) \<longleftrightarrow>
     X \<noteq> [] \<and> Y \<noteq> [] \<and> list_all isDigit X \<and> list_all isDigit Y \<and> s = pattern X Y @ rest"
proof
  assume a: "match_here s = Some (X, Y, rest)"
  have p: "HasPrefix s ''mul(''"
    using a unfolding match_here_def by (simp split: if_splits)
  define s1 where "s1 = drop 4 s"
  define s2 where "s2 = dropWhile isDigit s1"
  define s3 where "s3 = drop 1 s2"
  define s4 where "s4 = dropWhile isDigit s3"
  from a p have x: "X = takeWhile isDigit s1" "X \<noteq> []" and c: "HasPrefix s2 '',''"
    unfolding match_here_def Let_def s1_def s2_def by (auto split: if_splits)
  from a p c x have y: "Y = takeWhile isDigit s3" "Y \<noteq> []" and q: "HasPrefix s4 '')''"
    and r: "rest = drop 1 s4"
    unfolding match_here_def Let_def s1_def s2_def s3_def s4_def by (auto split: if_splits)
  have "s = ''mul('' @ s1" using HasPrefix_drop [OF p] by (simp add: s1_def eval_nat_numeral)
  moreover have "s1 = X @ s2" by (simp add: x s2_def)
  moreover have "s2 = '','' @ s3" using HasPrefix_drop [OF c] by (simp add: s3_def)
  moreover have "s3 = Y @ s4" by (simp add: y s4_def)
  moreover have "s4 = '')'' @ rest" using HasPrefix_drop [OF q] by (simp add: r)
  ultimately have "s = pattern X Y @ rest" by (simp add: pattern_def)
  moreover have "list_all isDigit X" "list_all isDigit Y"
    unfolding x y list_all_iff by (auto dest: set_takeWhileD)
  ultimately show "X \<noteq> [] \<and> Y \<noteq> [] \<and> list_all isDigit X \<and> list_all isDigit Y \<and> s = pattern X Y @ rest"
    using x y by simp
next
  assume a: "X \<noteq> [] \<and> Y \<noteq> [] \<and> list_all isDigit X \<and> list_all isDigit Y \<and> s = pattern X Y @ rest"
  then have s: "s = ''mul('' @ X @ CHR '','' # Y @ CHR '')'' # rest"
    by (simp add: pattern_def)
  have p: "HasPrefix s ''mul(''" by (simp add: s HasPrefix_def)
  have d4: "drop 4 s = X @ CHR '','' # Y @ CHR '')'' # rest" by (simp add: s)
  from a have tx: "takeWhile isDigit (X @ CHR '','' # Y @ CHR '')'' # rest) = X"
    and dx: "dropWhile isDigit (X @ CHR '','' # Y @ CHR '')'' # rest) = CHR '','' # Y @ CHR '')'' # rest"
    using takeWhile_digits [of X "CHR '',''"] by simp_all
  from a have ty: "takeWhile isDigit (Y @ CHR '')'' # rest) = Y"
    and dy: "dropWhile isDigit (Y @ CHR '')'' # rest) = CHR '')'' # rest"
    using takeWhile_digits [of Y "CHR '')''"] by simp_all
  show "match_here s = Some (X, Y, rest)"
    unfolding match_here_def Let_def d4 tx dx
    using p a by (simp add: HasPrefix_def ty dy)
qed

lemma getMatches_Nil: "getMatches [] = []"
  by (simp add: getMatches.simps)

lemma match_here_Nil: "match_here [] = None"
  by (simp add: match_here_def HasPrefix_def)

lemma getMatches_match:
  assumes "match_here s = Some (X, Y, rest)"
  shows "getMatches s = [pattern X Y, X, Y] # getMatches rest"
proof -
  from assms have s: "s = pattern X Y @ rest" by (simp add: match_here_iff)
  then have "take (length s - length rest) s = pattern X Y" by simp
  moreover from assms have "s \<noteq> []" using match_here_Nil by auto
  ultimately show ?thesis using assms by (subst getMatches.simps) simp
qed

lemma getMatches_no_match:
  "s \<noteq> [] \<Longrightarrow> match_here s = None \<Longrightarrow> getMatches s = getMatches (tl s)"
  by (subst getMatches.simps) simp

lemma mul_occurrences_occ:
  "mul_occurrences memory = concat (map (\<lambda>p. occ (drop p memory)) [0..<length memory])"
  by (simp add: mul_occurrences_def occ_def)

lemma mul_occurrences_Nil: "mul_occurrences [] = []"
  by (simp add: mul_occurrences_def)

lemma mul_occurrences_Cons: "mul_occurrences (c # cs) = occ (c # cs) @ mul_occurrences cs"
proof -
  have "[0..<length (c # cs)] = 0 # map Suc [0..<length cs]"
    by (simp add: upt_conv_Cons map_Suc_upt del: upt_Suc)
  then show ?thesis
    unfolding mul_occurrences_occ by (simp add: comp_def)
qed

lemma occ_not_m: "c \<noteq> CHR ''m'' \<Longrightarrow> occ (c # t) = []"
  by (simp add: occ_def match_here_def HasPrefix_def)

lemma mul_occurrences_skip:
  "list_all (\<lambda>c. c \<noteq> CHR ''m'') a \<Longrightarrow> mul_occurrences (a @ b) = mul_occurrences b"
  by (induction a) (simp_all add: mul_occurrences_Cons occ_not_m)

lemma digits_not: "list_all isDigit X \<Longrightarrow> list_all (\<lambda>c. c \<noteq> CHR ''m'' \<and> c \<noteq> CHR ''d'') X"
  by (induction X) auto

lemma mul_occurrences_match:
  assumes "match_here s = Some (X, Y, rest)"
  shows "mul_occurrences s = (X, Y) # mul_occurrences rest"
proof -
  define u where "u = ''ul('' @ X @ '','' @ Y @ '')''"
  from assms have d: "list_all isDigit X" "list_all isDigit Y"
    and s: "s = CHR ''m'' # (u @ rest)"
    by (simp_all add: match_here_iff pattern_def u_def)
  have "list_all (\<lambda>c. c \<noteq> CHR ''m'') u"
    using digits_not [OF d(1)] digits_not [OF d(2)] by (auto simp: list_all_iff u_def)
  then have skip: "mul_occurrences (u @ rest) = mul_occurrences rest"
    by (rule mul_occurrences_skip)
  have o: "occ s = [(X, Y)]" using assms by (simp add: occ_def)
  have "mul_occurrences (CHR ''m'' # (u @ rest)) =
      occ (CHR ''m'' # (u @ rest)) @ mul_occurrences (u @ rest)"
    by (rule mul_occurrences_Cons)
  then have "mul_occurrences s = occ s @ mul_occurrences (u @ rest)"
    by (simp only: s [symmetric])
  then show ?thesis by (simp add: o skip)
qed

lemma getMatches_occurrences:
  "getMatches memory = map (\<lambda>(X, Y). [pattern X Y, X, Y]) (mul_occurrences memory)"
proof (induction memory rule: getMatches.induct)
  case (1 s)
  show ?case
  proof (cases "s = []")
    case True
    then show ?thesis by (simp add: getMatches_Nil mul_occurrences_Nil)
  next
    case False
    show ?thesis
    proof (cases "match_here s")
      case None
      from False obtain c cs where s: "s = c # cs" by (cases s) auto
      have "occ s = []" using None by (simp add: occ_def)
      with "1.IH"(1) [OF False None] getMatches_no_match [OF False None] show ?thesis
        by (simp add: s mul_occurrences_Cons)
    next
      case (Some m)
      then obtain X Y rest where m: "match_here s = Some (X, Y, rest)" by (cases m) auto
      from "1.IH"(2) [OF False m refl refl] getMatches_match [OF m] mul_occurrences_match [OF m]
      show ?thesis by simp
    qed
  qed
qed

subsection \<open>The sum of Part 1\<close>

lemma digit_value_nonneg: "isDigit c \<Longrightarrow> 0 \<le> digit_value c"
  by (simp add: isDigit_def digit_value_def)

lemma foldl_decimal_nonneg:
  "list_all isDigit X \<Longrightarrow> 0 \<le> n \<Longrightarrow> 0 \<le> foldl (\<lambda>n c. 10 * n + digit_value c) n X"
  by (induction X arbitrary: n) (auto simp: digit_value_nonneg)

lemma decimal_nonneg: "list_all isDigit X \<Longrightarrow> 0 \<le> decimal X"
  unfolding decimal_def by (rule foldl_decimal_nonneg) simp_all

lemma Atoi_digits:
  assumes "X \<noteq> []" "list_all isDigit X"
  shows "Atoi X = (if decimal X < 2 ^ 63 then Some (word_of_int (decimal X)) else None)"
proof -
  from assms obtain c cs where X: "X = c # cs" by (cases X) auto
  with assms have "isDigit c" by simp
  then have "c \<noteq> CHR ''-''" "c \<noteq> CHR ''+''" by (auto simp: isDigit_def)
  with assms show ?thesis by (simp add: Atoi_def X)
qed

lemma occurrences_ok: "list_all operands_ok (mul_occurrences memory)"
proof -
  have "operands_ok XY" if "XY \<in> set (occ s)" for XY s
  proof (cases "match_here s")
    case None
    with that show ?thesis by (simp add: occ_def)
  next
    case (Some m)
    then obtain X Y rest where m: "match_here s = Some (X, Y, rest)" by (cases m) auto
    with that have "XY = (X, Y)" by (simp add: occ_def)
    with m show ?thesis by (simp add: match_here_iff operands_ok_def)
  qed
  then show ?thesis
    unfolding mul_occurrences_occ list_all_iff by auto
qed

lemma operand_product_nonneg: "operands_ok XY \<Longrightarrow> 0 \<le> operand_product XY"
  by (simp add: operands_ok_def operand_product_def decimal_nonneg)

lemma products_sum_nonneg: "0 \<le> products_sum memory"
proof -
  have "list_all operands_ok occs \<Longrightarrow> 0 \<le> sum_list (map operand_product occs)" for occs
    by (induction occs) (auto simp: operand_product_nonneg)
  from this [OF occurrences_ok] show ?thesis by (simp add: products_sum_def)
qed

lemma foldl_products:
  "list_all operands_ok occs \<Longrightarrow>
   foldl (\<lambda>summ match.
            (case (Atoi (match ! 1), Atoi (match ! 2)) of
               (Some a, Some b) \<Rightarrow> summ + a * b
             | _ \<Rightarrow> summ))
     summ (map (\<lambda>(X, Y). [pattern X Y, X, Y]) occs)
   = summ + word_of_int (sum_list (map operand_product occs))"
proof (induction occs arbitrary: summ)
  case Nil
  then show ?case by simp
next
  case (Cons XY occs)
  obtain X Y where XY: "XY = (X, Y)" by (cases XY) auto
  from Cons.prems have okXY: "operands_ok (X, Y)" and rest: "list_all operands_ok occs"
    by (simp_all add: XY)
  from okXY have ok: "X \<noteq> []" "Y \<noteq> []" "list_all isDigit X" "list_all isDigit Y"
    by (simp_all add: operands_ok_def)
  have "(case (Atoi X, Atoi Y) of (Some a, Some b) \<Rightarrow> summ + a * b | _ \<Rightarrow> summ)
      = summ + word_of_int (operand_product (X, Y))"
    by (simp add: Atoi_digits [OF ok(1) ok(3)] Atoi_digits [OF ok(2) ok(4)] operand_product_def)
  then show ?case
    using Cons.IH [OF rest] by (simp add: XY algebra_simps cong: option.case_cong)
qed

lemma partOne_memory_sum: "partOne_memory memory = word_of_int (products_sum memory)"
  unfolding partOne_memory_def getMatches_occurrences products_sum_def
  using foldl_products [OF occurrences_ok, of 0 memory] by simp

text \<open>
  Claim C6, as the code has it. The matches \<^verbatim>\<open>getMatches\<close> returns are the occurrences
  of \<^verbatim>\<open>mul(X,Y)\<close> (\<open>X\<close> and \<open>Y\<close> non-empty sequences of decimal digits) at all
  positions of the memory, in order of appearance, whatever else the text holds.
  \<^verbatim>\<open>partOne\<close> returns the sum of their products in 64-bit arithmetic, leaving out each
  occurrence with an operand above \<open>2 ^ 63 - 1\<close>, which \<^verbatim>\<open>strconv.Atoi\<close> rejects. The
  last part says what an occurrence at the head of a string \<open>s\<close> is.
\<close>

theorem partOne_memory_sum_of_products:
  "getMatches memory = map (\<lambda>(X, Y). [pattern X Y, X, Y]) (mul_occurrences memory)
   \<and> partOne_memory memory = word_of_int (sum_list (map operand_product (mul_occurrences memory)))
   \<and> (match_here s = Some (X, Y, rest) \<longleftrightarrow>
        X \<noteq> [] \<and> Y \<noteq> [] \<and> list_all isDigit X \<and> list_all isDigit Y \<and> s = pattern X Y @ rest)"
  using getMatches_occurrences [of memory] partOne_memory_sum [of memory]
    match_here_iff [of s X Y rest]
  by (simp add: products_sum_def)

text \<open>Claim C6 as stated fails, also when the sum is read in 64-bit arithmetic: the
  operand \<open>2 ^ 63\<close> of this match does not fit \<^verbatim>\<open>int\<close>, the program skips the match and
  returns 0.\<close>

theorem partOne_memory_skips_large_operand:
  "mul_occurrences ''mul(9223372036854775808,1)'' = [(''9223372036854775808'', ''1'')]
   \<and> partOne_memory ''mul(9223372036854775808,1)'' = 0
   \<and> partOne_memory ''mul(9223372036854775808,1)'' \<noteq>
       word_of_int (decimal ''9223372036854775808'' * decimal ''1'')"
  by code_simp

text \<open>The example of the specification.\<close>

lemma scanner_example:
  "getMatches ''xmul(2,4)&mul[3,7]!^don't()_mul(5,5)+mul(32,64](mul(11,8)undo()?mul(8,5))''
     = [[''mul(2,4)'', ''2'', ''4''], [''mul(5,5)'', ''5'', ''5''],
        [''mul(11,8)'', ''11'', ''8''], [''mul(8,5)'', ''8'', ''5'']]
   \<and> partOne_memory
       ''xmul(2,4)&mul[3,7]!^don't()_mul(5,5)+mul(32,64](mul(11,8)undo()?mul(8,5))'' = 161
   \<and> partTwo_memory
       ''xmul(2,4)&mul[3,7]!^don't()_mul(5,5)+mul(32,64](mul(11,8)undo()?mul(8,5))'' True = 48
   \<and> toggle_scan True
       ''xmul(2,4)&mul[3,7]!^don't()_mul(5,5)+mul(32,64](mul(11,8)undo()?mul(8,5))'' = 48"
  by code_simp

subsection \<open>The gated sum of Part 2\<close>

lemma pattern_no_d:
  "list_all isDigit X \<Longrightarrow> list_all isDigit Y \<Longrightarrow> CHR ''d'' \<notin> set (pattern X Y)"
  using digits_not [of X] digits_not [of Y] by (auto simp: pattern_def list_all_iff)

lemma match_here_append_d:
  "match_here (u @ CHR ''d'' # t) = Some (X, Y, rest') \<Longrightarrow> \<exists>rest. match_here u = Some (X, Y, rest)"
proof -
  assume a: "match_here (u @ CHR ''d'' # t) = Some (X, Y, rest')"
  then have ok: "X \<noteq> []" "Y \<noteq> []" "list_all isDigit X" "list_all isDigit Y"
    and e: "u @ CHR ''d'' # t = pattern X Y @ rest'"
    by (simp_all add: match_here_iff)
  from e obtain us where
    "(u = pattern X Y @ us \<and> us @ CHR ''d'' # t = rest') \<or> (u @ us = pattern X Y \<and> CHR ''d'' # t = us @ rest')"
    by (auto simp: append_eq_append_conv2)
  then have "\<exists>rest. u = pattern X Y @ rest"
  proof
    assume "u = pattern X Y @ us \<and> us @ CHR ''d'' # t = rest'"
    then show ?thesis by blast
  next
    assume b: "u @ us = pattern X Y \<and> CHR ''d'' # t = us @ rest'"
    show ?thesis
    proof (cases us)
      case Nil
      with b show ?thesis by simp
    next
      case (Cons c cs)
      with b have "CHR ''d'' \<in> set (pattern X Y)"
        by (metis append_Cons in_set_conv_decomp list.inject)
      with pattern_no_d [OF ok(3) ok(4)] show ?thesis by simp
    qed
  qed
  then obtain rest where "u = pattern X Y @ rest" ..
  with ok have "match_here u = Some (X, Y, rest)" by (simp add: match_here_iff)
  then show ?thesis ..
qed

lemma occ_append_d: "occ (u @ CHR ''d'' # t) = occ u"
proof (cases "match_here u")
  case None
  have "match_here (u @ CHR ''d'' # t) = None"
  proof (cases "match_here (u @ CHR ''d'' # t)")
    case (Some m)
    then obtain X Y rest' where "match_here (u @ CHR ''d'' # t) = Some (X, Y, rest')"
      by (cases m) auto
    from match_here_append_d [OF this] None show ?thesis by simp
  qed simp
  with None show ?thesis by (simp add: occ_def)
next
  case (Some m)
  then obtain X Y rest where m: "match_here u = Some (X, Y, rest)" by (cases m) auto
  then have "match_here (u @ CHR ''d'' # t) = Some (X, Y, rest @ CHR ''d'' # t)"
    by (simp add: match_here_iff)
  with m show ?thesis by (simp add: occ_def)
qed

lemma mul_occurrences_split:
  "mul_occurrences (a @ CHR ''d'' # t) = mul_occurrences a @ mul_occurrences (CHR ''d'' # t)"
proof (induction a)
  case Nil
  then show ?case by (simp add: mul_occurrences_Nil)
next
  case (Cons c a)
  have "occ (c # a @ CHR ''d'' # t) = occ (c # a)"
    using occ_append_d [of "c # a" t] by simp
  with Cons show ?case by (simp add: mul_occurrences_Cons)
qed

lemma products_sum_split:
  "products_sum (a @ CHR ''d'' # t) = products_sum a + products_sum (CHR ''d'' # t)"
  by (simp add: products_sum_def mul_occurrences_split)

lemma Index_split:
  assumes "0 \<le> Index memory (CHR ''d'' # p)"
  shows "\<exists>t. memory = take (nat (Index memory (CHR ''d'' # p))) memory @ CHR ''d'' # t
     \<and> drop (nat (Index memory (CHR ''d'' # p))) memory = CHR ''d'' # t"
proof -
  from Index_HasPrefix [OF assms] obtain t' where
    "drop (nat (Index memory (CHR ''d'' # p))) memory = (CHR ''d'' # p) @ t'"
    by (auto simp: HasPrefix_iff)
  then have d: "drop (nat (Index memory (CHR ''d'' # p))) memory = CHR ''d'' # (p @ t')" by simp
  have "memory = take (nat (Index memory (CHR ''d'' # p))) memory
      @ drop (nat (Index memory (CHR ''d'' # p))) memory" by simp
  with d show ?thesis by metis
qed

lemma partTwo_memory_bounded:
  "\<exists>k. 0 \<le> k \<and> k \<le> products_sum memory \<and> partTwo_memory memory enabled = word_of_int k"
proof (induction memory enabled rule: partTwo_memory.induct)
  case (1 memory enabled)
  show ?case
  proof (cases enabled)
    case True
    show ?thesis
    proof (cases "Contains memory ''don't()''")
      case c: True
      then have "Contains memory (''don't'' @ ''()'')" by simp
      then have nn: "0 \<le> Index memory ''don't''"
        using Contains_append unfolding Contains_def by blast
      from Index_split [of memory "''on't''"] nn obtain t where
        m: "memory = take (nat (Index memory ''don't'')) memory @ CHR ''d'' # t"
        and d: "drop (nat (Index memory ''don't'')) memory = CHR ''d'' # t"
        by auto
      from "1.IH"(1) [OF True c refl] obtain k where
        k: "0 \<le> k" "k \<le> products_sum (CHR ''d'' # t)"
        "partTwo_memory (drop (nat (Index memory ''don't'')) memory) False = word_of_int k"
        unfolding d by blast
      have s: "products_sum memory
          = products_sum (take (nat (Index memory ''don't'')) memory) + products_sum (CHR ''d'' # t)"
        by (subst m, rule products_sum_split)
      have "partTwo_memory memory enabled
          = word_of_int (products_sum (take (nat (Index memory ''don't'')) memory) + k)"
        using True c k(3)
        by (subst partTwo_memory.simps) (simp add: partOne_memory_sum Let_def)
      moreover have "0 \<le> products_sum (take (nat (Index memory ''don't'')) memory) + k"
        using k(1) products_sum_nonneg [of "take (nat (Index memory ''don't'')) memory"] by simp
      moreover have "products_sum (take (nat (Index memory ''don't'')) memory) + k \<le> products_sum memory"
        using k(2) s by simp
      ultimately show ?thesis by blast
    next
      case False
      with True have "partTwo_memory memory enabled = word_of_int (products_sum memory)"
        by (subst partTwo_memory.simps) (simp add: partOne_memory_sum)
      with products_sum_nonneg [of memory] show ?thesis by blast
    qed
  next
    case dis: False
    show ?thesis
    proof (cases "Contains memory ''do()''")
      case c: True
      then have nn: "0 \<le> Index memory ''do()''" by (simp add: Contains_def)
      from Index_split [of memory "''o()''"] nn obtain t where
        m: "memory = take (nat (Index memory ''do()'')) memory @ CHR ''d'' # t"
        and d: "drop (nat (Index memory ''do()'')) memory = CHR ''d'' # t"
        by auto
      from "1.IH"(2) [OF dis c refl] obtain k where
        k: "0 \<le> k" "k \<le> products_sum (CHR ''d'' # t)"
        "partTwo_memory (drop (nat (Index memory ''do()'')) memory) True = word_of_int k"
        unfolding d by blast
      have s: "products_sum memory
          = products_sum (take (nat (Index memory ''do()'')) memory) + products_sum (CHR ''d'' # t)"
        by (subst m, rule products_sum_split)
      have "partTwo_memory memory enabled = word_of_int k"
        using dis c k(3) by (subst partTwo_memory.simps) (simp add: Let_def)
      moreover have "k \<le> products_sum memory"
        using k(2) s products_sum_nonneg [of "take (nat (Index memory ''do()'')) memory"] by simp
      ultimately show ?thesis using k(1) by blast
    next
      case False
      with dis have "partTwo_memory memory enabled = word_of_int 0"
        by (subst partTwo_memory.simps) simp
      with products_sum_nonneg [of memory] show ?thesis by blast
    qed
  qed
qed

lemma sint_word_of_int_small:
  "0 \<le> k \<Longrightarrow> k < 2 ^ 63 \<Longrightarrow> sint (word_of_int k :: go_int) = k"
  by (simp add: sint_sbintrunc' signed_take_bit_int_eq_self)

text \<open>
  Claim C10, as the code has it. When the products of all matches sum to less than
  \<open>2 ^ 63\<close>, so that no sum of the program overflows, the gated sum of Part 2 is not
  negative and not above the sum of Part 1.
\<close>

theorem partTwo_memory_at_most_partOne:
  "products_sum memory < 2 ^ 63 \<Longrightarrow>
   0 \<le> sint (partTwo_memory memory True)
   \<and> sint (partTwo_memory memory True) \<le> sint (partOne_memory memory)"
proof -
  assume b: "products_sum memory < 2 ^ 63"
  from partTwo_memory_bounded [of memory True] obtain k where
    k: "0 \<le> k" "k \<le> products_sum memory" "partTwo_memory memory True = word_of_int k"
    by blast
  from k b have "sint (partTwo_memory memory True) = k"
    by (simp add: sint_word_of_int_small)
  moreover have "sint (partOne_memory memory) = products_sum memory"
    using b products_sum_nonneg [of memory]
    by (simp add: partOne_memory_sum sint_word_of_int_small)
  ultimately show ?thesis using k by simp
qed

theorem partTwo_memory_at_most_partOne_witness:
  "products_sum ''xmul(2,4)&mul[3,7]!^don't()_mul(5,5)+mul(32,64](mul(11,8)undo()?mul(8,5))''
     < 2 ^ 63
   \<and> 0 \<le> sint (partTwo_memory
       ''xmul(2,4)&mul[3,7]!^don't()_mul(5,5)+mul(32,64](mul(11,8)undo()?mul(8,5))'' True)
   \<and> sint (partTwo_memory
       ''xmul(2,4)&mul[3,7]!^don't()_mul(5,5)+mul(32,64](mul(11,8)undo()?mul(8,5))'' True)
     \<le> sint (partOne_memory
       ''xmul(2,4)&mul[3,7]!^don't()_mul(5,5)+mul(32,64](mul(11,8)undo()?mul(8,5))'')"
proof -
  have h: "products_sum
      ''xmul(2,4)&mul[3,7]!^don't()_mul(5,5)+mul(32,64](mul(11,8)undo()?mul(8,5))'' < 2 ^ 63"
    by code_simp
  show ?thesis
    using h partTwo_memory_at_most_partOne [OF h] by simp
qed

text \<open>Claim C10 as stated fails: the product of this one match overflows the 64-bit
  \<^verbatim>\<open>int\<close>, and both parts return a negative number.\<close>

theorem partTwo_memory_negative:
  "sint (partTwo_memory ''mul(3037000500,3037000500)'' True) = - 9223372036709301616
   \<and> sint (partOne_memory ''mul(3037000500,3037000500)'') = - 9223372036709301616"
  by code_simp

subsection \<open>Part 2 and the toggle scan\<close>

text \<open>Where every \<^verbatim>\<open>don't\<close> of the memory is followed by its parentheses, the
  recursion of \<^verbatim>\<open>partTwo\<close> computes the toggle scan: while enabled the scan adds what
  \<^verbatim>\<open>partOne\<close> adds up to the next \<^verbatim>\<open>don't()\<close>, and while disabled it adds nothing up
  to the next \<^verbatim>\<open>do()\<close>.\<close>

lemma Index_first:
  "0 \<le> Index s substr \<Longrightarrow> p < nat (Index s substr) \<Longrightarrow> \<not> HasPrefix (drop p s) substr"
proof (induction s arbitrary: p)
  case Nil
  then show ?case by (simp split: if_splits)
next
  case (Cons c cs)
  show ?case
  proof (cases "HasPrefix (c # cs) substr")
    case True
    with Cons.prems show ?thesis by simp
  next
    case False
    with Cons.prems have r: "0 \<le> Index cs substr" and e: "Index (c # cs) substr = Index cs substr + 1"
      by (auto simp: Let_def split: if_splits)
    show ?thesis
    proof (cases p)
      case 0
      with False show ?thesis by simp
    next
      case (Suc q)
      with Cons.prems e r have "q < nat (Index cs substr)" by simp
      from Cons.IH [OF r this] Suc show ?thesis by simp
    qed
  qed
qed

lemma not_Contains:
  "\<not> Contains s substr \<Longrightarrow> p \<le> length s \<Longrightarrow> \<not> HasPrefix (drop p s) substr"
  unfolding Contains_def using Index_found [of p s substr] by blast

lemma mul_product_operand:
  "operands_ok (X, Y) \<Longrightarrow> mul_product X Y = word_of_int (operand_product (X, Y))"
  by (simp add: mul_product_def operands_ok_def Atoi_digits operand_product_def)

lemma toggle_scan_Nil: "toggle_scan enabled [] = 0"
  by (simp add: toggle_scan.simps)

text \<open>A match in \<open>a @ s\<close> that starts in \<open>a\<close> lies within \<open>a\<close>, when \<open>s\<close> is empty or
  starts with \<open>d\<close>.\<close>

lemma match_here_within:
  assumes "match_here (a @ s) = Some (X, Y, rest)" and "a \<noteq> []"
    and "s = [] \<or> hd s = CHR ''d''"
  shows "\<exists>r. match_here a = Some (X, Y, r) \<and> rest = r @ s"
proof (cases s)
  case Nil
  with assms show ?thesis by simp
next
  case (Cons c t)
  with assms(3) have s: "s = CHR ''d'' # t" by simp
  from match_here_append_d [OF assms(1) [unfolded s]] obtain r where
    r: "match_here a = Some (X, Y, r)" ..
  then have "a = pattern X Y @ r" by (simp add: match_here_iff)
  moreover from assms(1) have "a @ s = pattern X Y @ rest" by (simp add: match_here_iff)
  ultimately have "rest = r @ s" by simp
  with r show ?thesis by blast
qed

lemma match_here_None_within:
  "match_here a = None \<Longrightarrow> a \<noteq> [] \<Longrightarrow> s = [] \<or> hd s = CHR ''d'' \<Longrightarrow> match_here (a @ s) = None"
proof (cases "match_here (a @ s)")
  case (Some m)
  assume n: "match_here a = None" and a: "a \<noteq> []" and s: "s = [] \<or> hd s = CHR ''d''"
  from Some obtain X Y rest where "match_here (a @ s) = Some (X, Y, rest)" by (cases m) auto
  from match_here_within [OF this a s] n show ?thesis by simp
qed simp

lemma products_sum_match:
  "match_here s = Some (X, Y, rest) \<Longrightarrow>
   products_sum s = operand_product (X, Y) + products_sum rest"
  by (simp add: products_sum_def mul_occurrences_match)

lemma products_sum_no_match:
  "match_here (c # cs) = None \<Longrightarrow> products_sum (c # cs) = products_sum cs"
  by (simp add: products_sum_def mul_occurrences_Cons occ_def)

lemma match_here_d: "match_here (CHR ''d'' # t) = None"
  by (simp add: match_here_def HasPrefix_def)

lemma toggle_True_prefix:
  "\<forall>p < length a. \<not> HasPrefix (drop p (a @ s)) ''don't()'' \<Longrightarrow> s = [] \<or> hd s = CHR ''d'' \<Longrightarrow>
   toggle_scan True (a @ s) = partOne_memory a + toggle_scan True s"
proof (induction "length a" arbitrary: a rule: less_induct)
  case less
  show ?case
  proof (cases a)
    case Nil
    then show ?thesis by (simp add: partOne_memory_sum products_sum_def mul_occurrences_Nil)
  next
    case (Cons c a')
    then have ne: "a \<noteq> []" "a @ s \<noteq> []" by simp_all
    from less.prems(1) Cons have nd: "\<not> HasPrefix (a @ s) ''don't()''" by fastforce
    have tail: "\<forall>p < length a'. \<not> HasPrefix (drop p (a' @ s)) ''don't()''"
    proof (intro allI impI)
      fix p assume "p < length a'"
      with less.prems(1) [rule_format, of "Suc p"] Cons
      show "\<not> HasPrefix (drop p (a' @ s)) ''don't()''" by simp
    qed
    have IH': "toggle_scan True (a' @ s) = partOne_memory a' + toggle_scan True s"
      using less.hyps [of a', OF _ tail less.prems(2)] Cons by simp
    show ?thesis
    proof (cases "HasPrefix (a @ s) ''do()''")
      case True
      then have "c = CHR ''d''" using Cons by (auto simp: HasPrefix_def)
      then have "match_here a = None" using Cons match_here_d by simp
      then have "partOne_memory a = partOne_memory a'"
        using Cons by (simp add: partOne_memory_sum products_sum_no_match)
      moreover have "toggle_scan True (a @ s) = toggle_scan True (a' @ s)"
        using nd True ne Cons by (subst toggle_scan.simps) simp
      ultimately show ?thesis using IH' by simp
    next
      case False
      show ?thesis
      proof (cases "match_here a")
        case None
        have "match_here (a @ s) = None"
          by (rule match_here_None_within [OF None ne(1) less.prems(2)])
        then have "toggle_scan True (a @ s) = toggle_scan True (a' @ s)"
          using nd False ne Cons by (subst toggle_scan.simps) simp
        moreover have "partOne_memory a = partOne_memory a'"
          using None Cons by (simp add: partOne_memory_sum products_sum_no_match)
        ultimately show ?thesis using IH' by simp
      next
        case (Some m)
        then obtain X Y r where m: "match_here a = Some (X, Y, r)" by (cases m) auto
        then have a: "a = pattern X Y @ r" and ok: "operands_ok (X, Y)"
          by (simp_all add: match_here_iff operands_ok_def)
        from m have ms: "match_here (a @ s) = Some (X, Y, r @ s)"
          by (simp add: match_here_iff)
        have len: "length r < length a" using match_here_shorter [OF m] .
        have rtail: "\<forall>p < length r. \<not> HasPrefix (drop p (r @ s)) ''don't()''"
        proof (intro allI impI)
          fix p assume p: "p < length r"
          have "drop (length (pattern X Y) + p) (a @ s) = drop p (r @ s)"
            by (subst a) (simp add: drop_append)
          moreover have "length (pattern X Y) + p < length a" using p by (subst a) simp
          ultimately show "\<not> HasPrefix (drop p (r @ s)) ''don't()''"
            using less.prems(1) by metis
        qed
        have "toggle_scan True (a @ s) = mul_product X Y + toggle_scan True (r @ s)"
          using nd False ne ms by (subst toggle_scan.simps) simp
        also have "\<dots> = (mul_product X Y + partOne_memory r) + toggle_scan True s"
          using less.hyps [OF len rtail less.prems(2)] by simp
        also have "mul_product X Y + partOne_memory r = partOne_memory a"
          by (simp add: partOne_memory_sum products_sum_match [OF m] mul_product_operand [OF ok])
        finally show ?thesis .
      qed
    qed
  qed
qed

lemma toggle_False_prefix:
  "\<forall>p < length a. \<not> HasPrefix (drop p (a @ s)) ''do()'' \<Longrightarrow> s = [] \<or> hd s = CHR ''d'' \<Longrightarrow>
   toggle_scan False (a @ s) = toggle_scan False s"
proof (induction "length a" arbitrary: a rule: less_induct)
  case less
  show ?case
  proof (cases a)
    case Nil
    then show ?thesis by simp
  next
    case (Cons c a')
    then have ne: "a \<noteq> []" "a @ s \<noteq> []" by simp_all
    from less.prems(1) Cons have nd: "\<not> HasPrefix (a @ s) ''do()''" by fastforce
    have tail: "\<forall>p < length a'. \<not> HasPrefix (drop p (a' @ s)) ''do()''"
    proof (intro allI impI)
      fix p assume "p < length a'"
      with less.prems(1) [rule_format, of "Suc p"] Cons
      show "\<not> HasPrefix (drop p (a' @ s)) ''do()''" by simp
    qed
    have IH': "toggle_scan False (a' @ s) = toggle_scan False s"
      using less.hyps [of a', OF _ tail less.prems(2)] Cons by simp
    show ?thesis
    proof (cases "HasPrefix (a @ s) ''don't()''")
      case True
      have "toggle_scan False (a @ s) = toggle_scan False (a' @ s)"
        using True ne Cons by (subst toggle_scan.simps) simp
      with IH' show ?thesis by simp
    next
      case False
      show ?thesis
      proof (cases "match_here a")
        case None
        have "match_here (a @ s) = None"
          by (rule match_here_None_within [OF None ne(1) less.prems(2)])
        then have "toggle_scan False (a @ s) = toggle_scan False (a' @ s)"
          using nd False ne Cons by (subst toggle_scan.simps) simp
        with IH' show ?thesis by simp
      next
        case (Some m)
        then obtain X Y r where m: "match_here a = Some (X, Y, r)" by (cases m) auto
        then have a: "a = pattern X Y @ r" by (simp add: match_here_iff)
        from m have ms: "match_here (a @ s) = Some (X, Y, r @ s)"
          by (simp add: match_here_iff)
        have len: "length r < length a" using match_here_shorter [OF m] .
        have rtail: "\<forall>p < length r. \<not> HasPrefix (drop p (r @ s)) ''do()''"
        proof (intro allI impI)
          fix p assume p: "p < length r"
          have "drop (length (pattern X Y) + p) (a @ s) = drop p (r @ s)"
            by (subst a) (simp add: drop_append)
          moreover have "length (pattern X Y) + p < length a" using p by (subst a) simp
          ultimately show "\<not> HasPrefix (drop p (r @ s)) ''do()''"
            using less.prems(1) by metis
        qed
        have "toggle_scan False (a @ s) = toggle_scan False (r @ s)"
          using nd False ne ms by (subst toggle_scan.simps) simp
        with less.hyps [OF len rtail less.prems(2)] show ?thesis by simp
      qed
    qed
  qed
qed

lemma no_bare_dont_iff:
  "no_bare_dont memory \<longleftrightarrow>
     (\<forall>p < length memory. HasPrefix (drop p memory) ''don't'' \<longrightarrow> HasPrefix (drop p memory) ''don't()'')"
  by (auto simp: no_bare_dont_def list_all_iff)

lemma no_bare_dont_drop: "no_bare_dont memory \<Longrightarrow> no_bare_dont (drop n memory)"
proof -
  assume a: "no_bare_dont memory"
  show ?thesis
    unfolding no_bare_dont_iff
  proof (intro allI impI)
    fix p
    assume p: "p < length (drop n memory)" and h: "HasPrefix (drop p (drop n memory)) ''don't''"
    from p have "p + n < length memory" by simp
    moreover from h have "HasPrefix (drop (p + n) memory) ''don't''" by simp
    ultimately have "HasPrefix (drop (p + n) memory) ''don't()''"
      using a unfolding no_bare_dont_iff by blast
    then show "HasPrefix (drop p (drop n memory)) ''don't()''" by simp
  qed
qed

lemma toggle_scan_at_dont:
  "HasPrefix s ''don't()'' \<Longrightarrow> toggle_scan True s = toggle_scan False s"
proof -
  assume h: "HasPrefix s ''don't()''"
  then have "s \<noteq> []" by (auto simp: HasPrefix_def)
  with h have "toggle_scan True s = toggle_scan False (tl s)"
    and "toggle_scan False s = toggle_scan False (tl s)"
    by (subst toggle_scan.simps, simp)+
  then show ?thesis by simp
qed

lemma do_not_dont: "HasPrefix s ''do()'' \<Longrightarrow> \<not> HasPrefix s ''don't()''"
  using HasPrefix_nth [of s "''do()''" 2] HasPrefix_nth [of s "''don't()''" 2] by auto

lemma toggle_scan_at_do:
  "HasPrefix s ''do()'' \<Longrightarrow> toggle_scan False s = toggle_scan True s"
proof -
  assume h: "HasPrefix s ''do()''"
  then have ne: "s \<noteq> []" by (auto simp: HasPrefix_def)
  from h have nd: "\<not> HasPrefix s ''don't()''" by (rule do_not_dont)
  from h ne nd have "toggle_scan True s = toggle_scan True (tl s)"
    and "toggle_scan False s = toggle_scan True (tl s)"
    by (subst toggle_scan.simps, simp)+
  then show ?thesis by simp
qed

lemma partTwo_memory_toggle_scan:
  "no_bare_dont memory \<Longrightarrow> partTwo_memory memory enabled = toggle_scan enabled memory"
proof (induction memory enabled rule: partTwo_memory.induct)
  case (1 memory enabled)
  note nb = "1.prems"
  show ?case
  proof (cases enabled)
    case True
    show ?thesis
    proof (cases "Contains memory ''don't()''")
      case c: True
      define i where "i = nat (Index memory ''don't'')"
      from c have "Contains memory (''don't'' @ ''()'')" by simp
      then have nn: "0 \<le> Index memory ''don't''"
        using Contains_append unfolding Contains_def by blast
      from Index_split [of memory "''on't''"] nn obtain t where
        d: "drop i memory = CHR ''d'' # t" unfolding i_def by auto
      then have il: "i < length memory" by (cases "i < length memory") auto
      have hp: "HasPrefix (drop i memory) ''don't''"
        unfolding i_def using Index_HasPrefix [OF nn] .
      with nb il have hp': "HasPrefix (drop i memory) ''don't()''"
        unfolding no_bare_dont_iff by blast
      have first: "\<forall>p < length (take i memory).
          \<not> HasPrefix (drop p (take i memory @ drop i memory)) ''don't()''"
      proof (intro allI impI)
        fix p assume "p < length (take i memory)"
        then have "p < nat (Index memory ''don't'')" by (simp add: i_def)
        from Index_first [OF nn this] have "\<not> HasPrefix (drop p memory) (''don't'' @ ''()'')"
          using HasPrefix_append by blast
        then show "\<not> HasPrefix (drop p (take i memory @ drop i memory)) ''don't()''" by simp
      qed
      have "toggle_scan True (take i memory @ drop i memory)
          = partOne_memory (take i memory) + toggle_scan True (drop i memory)"
        by (rule toggle_True_prefix [OF first]) (simp add: d)
      then have "toggle_scan True memory
          = partOne_memory (take i memory) + toggle_scan False (drop i memory)"
        by (simp add: toggle_scan_at_dont [OF hp'])
      moreover have "partTwo_memory (drop i memory) False = toggle_scan False (drop i memory)"
        using "1.IH"(1) [OF True c refl no_bare_dont_drop [OF nb]] by (simp add: i_def)
      moreover have "partTwo_memory memory True
          = partOne_memory (take i memory) + partTwo_memory (drop i memory) False"
        using c by (subst partTwo_memory.simps) (simp add: Let_def i_def)
      ultimately show ?thesis using True by simp
    next
      case False
      have first: "\<forall>p < length memory. \<not> HasPrefix (drop p (memory @ [])) ''don't()''"
        using not_Contains [OF False] by simp
      have "toggle_scan True (memory @ []) = partOne_memory memory + toggle_scan True []"
        by (rule toggle_True_prefix [OF first]) simp
      then have "toggle_scan True memory = partOne_memory memory"
        by (simp add: toggle_scan_Nil)
      moreover have "partTwo_memory memory True = partOne_memory memory"
        using False by (subst partTwo_memory.simps) simp
      ultimately show ?thesis using True by simp
    qed
  next
    case dis: False
    show ?thesis
    proof (cases "Contains memory ''do()''")
      case c: True
      define i where "i = nat (Index memory ''do()'')"
      from c have nn: "0 \<le> Index memory ''do()''" by (simp add: Contains_def)
      from Index_split [of memory "''o()''"] nn obtain t where
        d: "drop i memory = CHR ''d'' # t" unfolding i_def by auto
      have hp: "HasPrefix (drop i memory) ''do()''"
        unfolding i_def using Index_HasPrefix [OF nn] .
      have first: "\<forall>p < length (take i memory).
          \<not> HasPrefix (drop p (take i memory @ drop i memory)) ''do()''"
      proof (intro allI impI)
        fix p assume "p < length (take i memory)"
        then have "p < nat (Index memory ''do()'')" by (simp add: i_def)
        from Index_first [OF nn this]
        show "\<not> HasPrefix (drop p (take i memory @ drop i memory)) ''do()''" by simp
      qed
      have "toggle_scan False (take i memory @ drop i memory) = toggle_scan False (drop i memory)"
        by (rule toggle_False_prefix [OF first]) (simp add: d)
      then have "toggle_scan False memory = toggle_scan True (drop i memory)"
        by (simp add: toggle_scan_at_do [OF hp])
      moreover have "partTwo_memory (drop i memory) True = toggle_scan True (drop i memory)"
        using "1.IH"(2) [OF dis c refl no_bare_dont_drop [OF nb]] by (simp add: i_def)
      moreover have "partTwo_memory memory False = partTwo_memory (drop i memory) True"
        using c by (subst partTwo_memory.simps) (simp add: Let_def i_def)
      ultimately show ?thesis using dis by simp
    next
      case False
      have first: "\<forall>p < length memory. \<not> HasPrefix (drop p (memory @ [])) ''do()''"
        using not_Contains [OF False] by simp
      have "toggle_scan False (memory @ []) = toggle_scan False []"
        by (rule toggle_False_prefix [OF first]) simp
      then have "toggle_scan False memory = 0"
        by (simp add: toggle_scan_Nil)
      moreover have "partTwo_memory memory False = 0"
        using False by (subst partTwo_memory.simps) simp
      ultimately show ?thesis using dis by simp
    qed
  qed
qed

lemma no_bare_dont_example:
  "no_bare_dont ''xmul(2,4)&mul[3,7]!^don't()_mul(5,5)+mul(32,64](mul(11,8)undo()?mul(8,5))''
   \<and> \<not> no_bare_dont ''don'tmul(2,3)don't()''"
  by code_simp

text \<open>
  Claim C2. \<^verbatim>\<open>partTwo(memory, true)\<close> is claimed to be the toggle scan that disables
  exactly at \<^verbatim>\<open>don't()\<close>, for every memory. The program tests for \<^verbatim>\<open>don't()\<close> and then
  cuts the memory at the first \<^verbatim>\<open>don't\<close>, with or without parentheses: here it disables
  at position 0 and returns 0, where the scan adds the product 6 before it reaches
  \<^verbatim>\<open>don't()\<close>.
\<close>


theorem partTwo_memory_cuts_at_dont:
  "Contains ''don'tmul(2,3)don't()'' ''don't()''
   \<and> Index ''don'tmul(2,3)don't()'' ''don't'' = 0
   \<and> Index ''don'tmul(2,3)don't()'' ''don't()'' = 13
   \<and> partTwo_memory ''don'tmul(2,3)don't()'' True = 0
   \<and> toggle_scan True ''don'tmul(2,3)don't()'' = 6"
  by code_simp

end
